theory Spec2Isabelle
  imports Main "HOL-Library.Word"
begin

section \<open>Data model\<close>

text \<open>
  The registry \<open>definitions\<close> and the table \<open>aliases\<close> are generated files that the
  encoder imports; they are parameters \<open>defs\<close> and \<open>al\<close> of every operation below.
  A codepage identifier is a \<open>string\<close>. The text to encode is a JavaScript string, that
  is a sequence of UTF-16 code units (\<open>16 word list\<close>): \<open>input.length\<close> is its length
  and \<open>input.codePointAt(c)\<close> reads at a code unit index.

  An entry of a \<open>value\<close> array is a hole (\<open>undefined\<close>), a number, or a row (an array of
  numbers and holes). An array of numbers that may have holes is a \<open>nat option list\<close>,
  \<open>None\<close> being \<open>undefined\<close>.
\<close>

datatype slot = Hole | Num nat | Row "nat option list"

record Codepage =
  name :: string
  languages :: "string list option"
  extends :: "string option"
  offset :: "nat option"
  cp_value :: "slot list option"

record Encoding = Codepage +
  codepoints :: "nat option list"

text \<open>
  What a call does besides returning: it throws (the only exception the encoder can raise by
  itself is the \<open>TypeError\<close> of reading a property of \<open>undefined\<close>), or its recursion
  through \<open>extends\<close> never ends. A call is given the depth \<open>fuel\<close> of calls it may nest;
  \<open>None\<close> is the call that needs more, \<open>Some (Inl e)\<close> the exception, \<open>Some (Inr v)\<close>
  the returned value.
\<close>

datatype error = TypeError

type_synonym 'a outcome = "(error + 'a) option"

definition andThen :: "'a outcome \<Rightarrow> ('a \<Rightarrow> 'b outcome) \<Rightarrow> 'b outcome" where
  "andThen m f = (case m of None \<Rightarrow> None | Some (Inl e) \<Rightarrow> Some (Inl e) | Some (Inr x) \<Rightarrow> f x)"

section \<open>Arrays\<close>

text \<open>\<open>xs[i]\<close>: \<open>undefined\<close> at a hole and beyond the end.\<close>

definition js_get :: "'a option list \<Rightarrow> nat \<Rightarrow> 'a option" where
  "js_get xs i = (if i < length xs then xs ! i else None)"

text \<open>\<open>xs[k] = v\<close>: beyond the end the array grows, the gap being holes.\<close>

definition js_set :: "'a option list \<Rightarrow> nat \<Rightarrow> 'a \<Rightarrow> 'a option list" where
  "js_set xs k v =
     (if k < length xs then xs[k := Some v]
      else xs @ replicate (k - length xs) None @ [Some v])"

text \<open>\<open>xs.findIndex(p)\<close>, \<open>None\<close> for \<open>-1\<close>.\<close>

fun findIndex :: "('a \<Rightarrow> bool) \<Rightarrow> 'a list \<Rightarrow> nat option" where
  "findIndex p [] = None"
| "findIndex p (x # xs) = (if p x then Some 0 else map_option Suc (findIndex p xs))"

section \<open>Resolving a codepage table\<close>

text \<open>The inner loop of the sparse form: columns \<open>j\<close> of row \<open>i\<close>.\<close>

definition overlayRow :: "nat \<Rightarrow> nat option list \<Rightarrow> nat option list \<Rightarrow> nat option list" where
  "overlayRow i subvalue cps =
     fold (\<lambda>j acc. case js_get subvalue j of
                      None \<Rightarrow> acc
                    | Some subsubvalue \<Rightarrow> js_set acc (i * 16 + j) subsubvalue)
          [0..<16] cps"

definition overlaySparse :: "slot list \<Rightarrow> nat option list \<Rightarrow> nat option list" where
  "overlaySparse v cps =
     fold (\<lambda>i acc. case v ! i of Row subvalue \<Rightarrow> overlayRow i subvalue acc | _ \<Rightarrow> acc)
          [0..<16] cps"

definition overlayDense :: "nat \<Rightarrow> slot list \<Rightarrow> nat option list \<Rightarrow> nat option list" where
  "overlayDense off v cps =
     fold (\<lambda>i acc. case v ! i of Num subvalue \<Rightarrow> js_set acc (off + i) subvalue | _ \<Rightarrow> acc)
          [0..<length v] cps"

text \<open>The second half of \<open>getCodepoints\<close>: the definition's \<open>value\<close> written over \<open>cps\<close>.\<close>

definition overlayValue :: "Codepage \<Rightarrow> nat option list \<Rightarrow> nat option list" where
  "overlayValue d cps =
     (case cp_value d of
        None \<Rightarrow> cps
      | Some v \<Rightarrow>
          if length v = 16 then overlaySparse v cps
          else overlayDense (case offset d of None \<Rightarrow> 0 | Some off \<Rightarrow> off) v cps)"

text \<open>
  \<open>getEncoding\<close> and \<open>getCodepoints\<close> call each other through \<open>extends\<close>. The reads
  \<open>aliases[codepage]\<close> and \<open>definitions[codepage]\<close> are lookups in the maps \<open>al\<close> and
  \<open>defs\<close>, \<open>None\<close> for \<open>undefined\<close>. (A key that the two objects only inherit, such
  as \<open>constructor\<close>, is redirected by the alias step to a value that is no key of
  \<open>definitions\<close>, and so ends at \<open>ascii\<close>, as a key that is missing from both does.)
  Where \<open>definitions\<close> has not even \<open>ascii\<close>, \<open>getCodepoints\<close> throws on reading
  \<open>definitions[codepage].extends\<close>, before there is an object to return.
\<close>

fun getEncoding :: "nat \<Rightarrow> (string \<rightharpoonup> Codepage) \<Rightarrow> (string \<rightharpoonup> string) \<Rightarrow> string \<Rightarrow> Encoding outcome"
and getCodepoints :: "nat \<Rightarrow> (string \<rightharpoonup> Codepage) \<Rightarrow> (string \<rightharpoonup> string) \<Rightarrow> string \<Rightarrow> bool
                        \<Rightarrow> nat option list outcome" where
  "getEncoding 0 defs al codepage = None"
| "getEncoding (Suc fuel) defs al codepage =
     (let codepage1 = (case al codepage of Some a \<Rightarrow> a | None \<Rightarrow> codepage);
          codepage2 = (if defs codepage1 = None then ''ascii'' else codepage1)
      in andThen (getCodepoints fuel defs al codepage2 True) (\<lambda>cps.
           case defs codepage2 of
             None \<Rightarrow> Some (Inl TypeError)
           | Some d \<Rightarrow>
               Some (Inr \<lparr>name = name d, languages = languages d, extends = extends d,
                          offset = offset d, cp_value = cp_value d, codepoints = cps\<rparr>)))"
| "getCodepoints 0 defs al codepage evaluateExtends = None"
| "getCodepoints (Suc fuel) defs al codepage evaluateExtends =
     (case defs codepage of
        None \<Rightarrow> Some (Inl TypeError)
      | Some d \<Rightarrow>
          andThen
            (if evaluateExtends then
               (case extends d of
                  None \<Rightarrow> Some (Inr (replicate 256 (Some 0xFFFD)))
                | Some parent \<Rightarrow>
                    andThen (getEncoding fuel defs al parent) (\<lambda>e. Some (Inr (codepoints e))))
             else Some (Inr (replicate 256 None)))
            (\<lambda>cps. Some (Inr (overlayValue d cps))))"

section \<open>Encoding against one codepage\<close>

text \<open>
  \<open>input.codePointAt(c)\<close>: the code point that starts at code unit \<open>c\<close>; a high surrogate
  followed by a low surrogate is read as one code point, any other unit as itself;
  \<open>undefined\<close> beyond the end.
\<close>

definition codePointAt :: "16 word list \<Rightarrow> nat \<Rightarrow> nat option" where
  "codePointAt s c =
     (if c < length s then
        (let first = unat (s ! c) in
         if 0xD800 \<le> first \<and> first \<le> 0xDBFF \<and> c + 1 < length s then
           (let second = unat (s ! (c + 1)) in
            if 0xDC00 \<le> second \<and> second \<le> 0xDFFF
            then Some ((first - 0xD800) * 0x400 + (second - 0xDC00) + 0x10000)
            else Some first)
         else Some first)
      else None)"

text \<open>
  The output is a \<open>Uint8Array\<close> of \<open>input.length\<close> bytes; storing a number in it keeps
  the number modulo 256 (\<open>of_nat\<close> into \<open>8 word\<close>).
\<close>

definition encode ::
  "nat \<Rightarrow> (string \<rightharpoonup> Codepage) \<Rightarrow> (string \<rightharpoonup> string) \<Rightarrow> 16 word list \<Rightarrow> string
     \<Rightarrow> 8 word list outcome" where
  "encode fuel defs al input codepage =
     andThen (getEncoding fuel defs al codepage) (\<lambda>definition.
       Some (Inr (map (\<lambda>c. case findIndex (\<lambda>i. i = codePointAt input c) (codepoints definition) of
                              Some position \<Rightarrow> of_nat position
                            | None \<Rightarrow> 0x3F)
                      [0..<length input])))"

section \<open>Encoding against a list of candidates\<close>

record fragment =
  codepage :: string
  bytes :: "8 word list"

record currentFragment =
  cur_codepage :: "string option"
  chars :: "nat list"

text \<open>A codepage that is \<open>undefined\<close> or the empty string is falsy.\<close>

definition truthy :: "string option \<Rightarrow> bool" where
  "truthy cp = (case cp of None \<Rightarrow> False | Some s \<Rightarrow> s \<noteq> [])"

text \<open>The scan of the candidates: the first one whose table has the code point, and where.\<close>

fun scanCandidates ::
  "nat \<Rightarrow> (string \<rightharpoonup> Codepage) \<Rightarrow> (string \<rightharpoonup> string) \<Rightarrow> string list \<Rightarrow> nat option
     \<Rightarrow> (string \<times> nat) option outcome" where
  "scanCandidates fuel defs al [] codePoint = Some (Inr None)"
| "scanCandidates fuel defs al (candidate # rest) codePoint =
     andThen (getEncoding fuel defs al candidate) (\<lambda>definition.
       case findIndex (\<lambda>i. i = codePoint) (codepoints definition) of
         Some position \<Rightarrow> Some (Inr (Some (candidate, position)))
       | None \<Rightarrow> scanCandidates fuel defs al rest codePoint)"

text \<open>
  One round of the loop over the code units, at index \<open>c\<close>, in its three parts: the look
  at the current codepage, the scan of the candidates when that gave nothing, and the rest
  (fallback, fragment boundary, append), which consults no table.
\<close>

definition tryCurrent ::
  "nat \<Rightarrow> (string \<rightharpoonup> Codepage) \<Rightarrow> (string \<rightharpoonup> string) \<Rightarrow> currentFragment \<Rightarrow> nat option
     \<Rightarrow> (string option \<times> nat) outcome" where
  "tryCurrent fuel defs al cf codePoint =
     (case cur_codepage cf of
        None \<Rightarrow> Some (Inr (None, 0))
      | Some cur \<Rightarrow>
          if cur = [] then Some (Inr (None, 0))
          else andThen (getEncoding fuel defs al cur) (\<lambda>definition.
                 case findIndex (\<lambda>i. i = codePoint) (codepoints definition) of
                   Some position \<Rightarrow> Some (Inr (Some cur, position))
                 | None \<Rightarrow> Some (Inr (None, 0))))"

definition tryCandidates ::
  "nat \<Rightarrow> (string \<rightharpoonup> Codepage) \<Rightarrow> (string \<rightharpoonup> string) \<Rightarrow> string list \<Rightarrow> nat option
     \<Rightarrow> string option \<times> nat \<Rightarrow> (string option \<times> nat) outcome" where
  "tryCandidates fuel defs al candidates codePoint available =
     (if \<not> truthy (fst available) then
        andThen (scanCandidates fuel defs al candidates codePoint) (\<lambda>found.
          case found of
            Some (candidate, position) \<Rightarrow> Some (Inr (Some candidate, position))
          | None \<Rightarrow> Some (Inr available))
      else Some (Inr available))"

definition finishRound ::
  "string list \<Rightarrow> fragment list \<times> currentFragment \<Rightarrow> string option \<times> nat
     \<Rightarrow> fragment list \<times> currentFragment" where
  "finishRound candidates st available =
     (let fragments = fst st; cf = snd st;
          (availableCodepage, char) =
            (if \<not> truthy (fst available) then
               (if truthy (cur_codepage cf) then cur_codepage cf
                else (case candidates of [] \<Rightarrow> None | first # _ \<Rightarrow> Some first),
                0x3F)
             else available);
          (fragments', cf') =
            (if cur_codepage cf \<noteq> availableCodepage then
               ((case cur_codepage cf of
                   None \<Rightarrow> fragments
                 | Some cur \<Rightarrow>
                     if cur = [] then fragments
                     else fragments @ [\<lparr>codepage = cur, bytes = map of_nat (chars cf)\<rparr>]),
                \<lparr>cur_codepage = availableCodepage, chars = []\<rparr>)
             else (fragments, cf))
      in (fragments', cf'\<lparr>chars := chars cf' @ [char]\<rparr>))"

definition autoStep ::
  "nat \<Rightarrow> (string \<rightharpoonup> Codepage) \<Rightarrow> (string \<rightharpoonup> string) \<Rightarrow> 16 word list \<Rightarrow> string list
     \<Rightarrow> fragment list \<times> currentFragment \<Rightarrow> nat \<Rightarrow> (fragment list \<times> currentFragment) outcome" where
  "autoStep fuel defs al input candidates st c =
     (let codePoint = codePointAt input c in
      andThen (tryCurrent fuel defs al (snd st) codePoint) (\<lambda>available1.
        andThen (tryCandidates fuel defs al candidates codePoint available1) (\<lambda>available2.
          Some (Inr (finishRound candidates st available2)))))"

fun autoLoop ::
  "nat \<Rightarrow> (string \<rightharpoonup> Codepage) \<Rightarrow> (string \<rightharpoonup> string) \<Rightarrow> 16 word list \<Rightarrow> string list
     \<Rightarrow> nat list \<Rightarrow> fragment list \<times> currentFragment \<Rightarrow> (fragment list \<times> currentFragment) outcome" where
  "autoLoop fuel defs al input candidates [] st = Some (Inr st)"
| "autoLoop fuel defs al input candidates (c # cs) st =
     andThen (autoStep fuel defs al input candidates st c)
             (autoLoop fuel defs al input candidates cs)"

definition autoEncode ::
  "nat \<Rightarrow> (string \<rightharpoonup> Codepage) \<Rightarrow> (string \<rightharpoonup> string) \<Rightarrow> 16 word list \<Rightarrow> string list
     \<Rightarrow> fragment list outcome" where
  "autoEncode fuel defs al input candidates =
     andThen (autoLoop fuel defs al input candidates [0..<length input]
                ([], \<lparr>cur_codepage = None, chars = []\<rparr>))
       (\<lambda>(fragments, cf).
          Some (Inr (case cur_codepage cf of
                       None \<Rightarrow> fragments
                     | Some cur \<Rightarrow>
                         if cur = [] then fragments
                         else fragments @ [\<lparr>codepage = cur, bytes = map of_nat (chars cf)\<rparr>])))"

section \<open>Notions of the specification\<close>

text \<open>
  The identifier that \<open>getEncoding\<close> ends up reading the registry at: the alias map is
  applied once, and an identifier the registry does not have is replaced by \<open>ascii\<close>.
\<close>

definition resolveName :: "(string \<rightharpoonup> Codepage) \<Rightarrow> (string \<rightharpoonup> string) \<Rightarrow> string \<Rightarrow> string" where
  "resolveName defs al cp =
     (let canonical = (case al cp of Some a \<Rightarrow> a | None \<Rightarrow> cp)
      in if defs canonical = None then ''ascii'' else canonical)"

text \<open>
  The table that \<open>getCodepoints\<close> starts from, before it writes the definition's own
  \<open>value\<close>: the first half of its body, for a definition \<open>d\<close> that the registry has.
\<close>

definition baseTable ::
  "nat \<Rightarrow> (string \<rightharpoonup> Codepage) \<Rightarrow> (string \<rightharpoonup> string) \<Rightarrow> Codepage \<Rightarrow> bool
     \<Rightarrow> nat option list outcome" where
  "baseTable fuel defs al d evaluateExtends =
     (if evaluateExtends then
        (case extends d of
           None \<Rightarrow> Some (Inr (replicate 256 (Some 0xFFFD)))
         | Some parent \<Rightarrow>
             andThen (getEncoding fuel defs al parent) (\<lambda>e. Some (Inr (codepoints e))))
      else Some (Inr (replicate 256 None)))"

text \<open>
  The decode rule of the specification, read as the code point that a definition's own
  \<open>value\<close> supplies for a table index, if any. Sparse-diff form: row \<open>idx div 16\<close>,
  column \<open>idx mod 16\<close>. Dense form: entry \<open>idx - offset\<close>.
\<close>

definition sparseRule :: "slot list \<Rightarrow> nat \<Rightarrow> nat option" where
  "sparseRule v idx =
     (if idx < 256 then (case v ! (idx div 16) of Row r \<Rightarrow> js_get r (idx mod 16) | _ \<Rightarrow> None)
      else None)"

definition denseRule :: "nat \<Rightarrow> slot list \<Rightarrow> nat \<Rightarrow> nat option" where
  "denseRule off v idx =
     (if off \<le> idx \<and> idx - off < length v
      then (case v ! (idx - off) of Num n \<Rightarrow> Some n | _ \<Rightarrow> None)
      else None)"

definition decodeRule :: "Codepage \<Rightarrow> nat \<Rightarrow> nat option" where
  "decodeRule d idx =
     (case cp_value d of
        None \<Rightarrow> None
      | Some v \<Rightarrow>
          if length v = 16 then sparseRule v idx
          else denseRule (case offset d of None \<Rightarrow> 0 | Some off \<Rightarrow> off) v idx)"

text \<open>
  Modelled from the spec: the generated registry (\<open>generated/definitions.ts\<close>) is not
  among the sources, so what the operations are given is constrained as the specification
  and the generator describe it. The registry has no cycle of \<open>extends\<close> (assumed by
  construction, unchecked at run time) and contains \<open>ascii\<close>: \<open>rank\<close> bounds the length
  of the \<open>extends\<close> chain of every codepage, followed as \<open>getEncoding\<close> follows it.
\<close>

definition chain_ok :: "(string \<rightharpoonup> Codepage) \<Rightarrow> (string \<rightharpoonup> string) \<Rightarrow> (string \<Rightarrow> nat) \<Rightarrow> bool" where
  "chain_ok defs al rank =
     (defs ''ascii'' \<noteq> None \<and>
      (\<forall>cp d parent. defs cp = Some d \<and> extends d = Some parent
           \<longrightarrow> rank (resolveName defs al parent) < rank cp))"

text \<open>
  Modelled from the spec: the format of the generated registry. A dense \<open>value\<close> placed
  from \<open>offset\<close> stays inside the 256 bytes (the generator writes the table from \<open>offset\<close>
  on, \<open>offset\<close> being 0 or 128), and every number is a code point.
\<close>

definition validCodePoint :: "nat \<Rightarrow> bool" where
  "validCodePoint n = (n \<le> 0x10FFFF)"

fun slot_ok :: "slot \<Rightarrow> bool" where
  "slot_ok Hole = True"
| "slot_ok (Num n) = validCodePoint n"
| "slot_ok (Row r) = list_all (\<lambda>x. case x of None \<Rightarrow> True | Some n \<Rightarrow> validCodePoint n) r"

definition value_ok :: "Codepage \<Rightarrow> bool" where
  "value_ok d =
     (case cp_value d of
        None \<Rightarrow> True
      | Some v \<Rightarrow>
          list_all slot_ok v \<and>
          (length v = 16 \<or> (case offset d of None \<Rightarrow> 0 | Some off \<Rightarrow> off) + length v \<le> 256))"

definition format_ok :: "(string \<rightharpoonup> Codepage) \<Rightarrow> bool" where
  "format_ok defs = (\<forall>cp d. defs cp = Some d \<longrightarrow> value_ok d)"

text \<open>
  The invariant of a resolved table: 256 entries, each a code point or the sentinel
  \<open>0xFFFD\<close>, none missing.
\<close>

definition entry_ok :: "nat option \<Rightarrow> bool" where
  "entry_ok x = (case x of None \<Rightarrow> False | Some n \<Rightarrow> validCodePoint n \<or> n = 0xFFFD)"

definition table_inv :: "nat option list \<Rightarrow> bool" where
  "table_inv t = (length t = 256 \<and> list_all entry_ok t)"

text \<open>
  The code points of a string, as iterating the string yields them: a surrogate pair is
  one code point, any other code unit is one by itself.
\<close>

fun codePointsOf :: "16 word list \<Rightarrow> nat list" where
  "codePointsOf [] = []"
| "codePointsOf [u] = [unat u]"
| "codePointsOf (u # v # rest) =
     (if 0xD800 \<le> unat u \<and> unat u \<le> 0xDBFF \<and> 0xDC00 \<le> unat v \<and> unat v \<le> 0xDFFF
      then ((unat u - 0xD800) * 0x400 + (unat v - 0xDC00) + 0x10000) # codePointsOf rest
      else unat u # codePointsOf (v # rest))"

definition codePointCount :: "16 word list \<Rightarrow> nat" where
  "codePointCount s = length (codePointsOf s)"

text \<open>The code points beyond the Basic Multilingual Plane, which take two code units.\<close>

definition astralCount :: "16 word list \<Rightarrow> nat" where
  "astralCount s = length (filter (\<lambda>cp. 0x10000 \<le> cp) (codePointsOf s))"

section \<open>A small registry\<close>

text \<open>
  A registry in the generated format, for concrete runs: \<open>ascii\<close> in dense form (the
  identity on bytes 0 to 127, then holes; the array literal that the generator writes ends
  in a hole, so its length is 255), \<open>cp437\<close> extending it in sparse-diff form (row 8
  gives bytes 0x80 to 0x82), \<open>latin1\<close> extending it in dense form from offset 128 (bytes
  0x80 to 0xFF are their own code points), and the alias \<open>ibm437\<close>.
\<close>

definition exampleAscii :: Codepage where
  "exampleAscii =
     \<lparr>name = ''ASCII'', languages = Some [''en''], extends = None, offset = None,
      cp_value = Some (map Num [0..<128] @ replicate 127 Hole)\<rparr>"

definition exampleCp437 :: Codepage where
  "exampleCp437 =
     \<lparr>name = ''Cp437'', languages = Some [''en''], extends = Some ''ascii'', offset = None,
      cp_value = Some (replicate 8 Hole @ [Row [Some 0xC7, Some 0xFC, Some 0xE9]] @ replicate 7 Hole)\<rparr>"

definition exampleLatin1 :: Codepage where
  "exampleLatin1 =
     \<lparr>name = ''Latin 1'', languages = None, extends = Some ''ascii'', offset = Some 128,
      cp_value = Some (map Num [128..<256])\<rparr>"

definition exampleDefinitions :: "string \<rightharpoonup> Codepage" where
  "exampleDefinitions =
     [''ascii'' \<mapsto> exampleAscii, ''cp437'' \<mapsto> exampleCp437, ''latin1'' \<mapsto> exampleLatin1]"

definition exampleAliases :: "string \<rightharpoonup> string" where
  "exampleAliases = [''ibm437'' \<mapsto> ''cp437'']"

definition exampleRank :: "string \<Rightarrow> nat" where
  "exampleRank cp = (if cp = ''ascii'' then 0 else 1)"

text \<open>The tables that the three definitions resolve to.\<close>

definition exampleAsciiTable :: "nat option list" where
  "exampleAsciiTable = map Some [0..<128] @ replicate 128 (Some 0xFFFD)"

definition exampleCp437Table :: "nat option list" where
  "exampleCp437Table =
     map Some [0..<128] @ [Some 0xC7, Some 0xFC, Some 0xE9] @ replicate 125 (Some 0xFFFD)"

definition exampleLatin1Table :: "nat option list" where
  "exampleLatin1Table = map Some [0..<256]"

text \<open>The object \<open>getEncoding\<close> returns: the fields of the definition and the table.\<close>

definition withCodepoints :: "Codepage \<Rightarrow> nat option list \<Rightarrow> Encoding" where
  "withCodepoints d cps =
     \<lparr>name = name d, languages = languages d, extends = extends d,
      offset = offset d, cp_value = cp_value d, codepoints = cps\<rparr>"

section \<open>The store: objects and arrays by reference\<close>

text \<open>
  For what a caller can do to the object that \<open>getEncoding\<close> returns, the registry and
  the returned objects are cells of a store, at addresses. A cell is an array of numbers
  with holes (a row of a \<open>value\<close>, a table), an array of strings (\<open>languages\<close>), a
  \<open>value\<close> array, whose entries are holes, numbers and references to rows, or an object
  with the fields of a definition, \<open>codepoints\<close> besides on a returned object. The store is
  the list of its cells; a new cell goes at the end. The object \<open>definitions\<close> is the map
  \<open>reg\<close> from identifiers to the addresses of the definition objects.
\<close>

type_synonym addr = nat

datatype hslot = HHole | HNum nat | HRow addr

record hobject =
  h_name :: string
  h_languages :: "addr option"
  h_extends :: "string option"
  h_offset :: "nat option"
  h_value :: "addr option"
  h_codepoints :: "addr option"

datatype cell = Numbers "nat option list" | Strings "string list" | Slots "hslot list"
  | Object hobject

type_synonym store = "cell list"

definition alloc :: "store \<Rightarrow> cell \<Rightarrow> addr \<times> store" where
  "alloc h c = (length h, h @ [c])"

text \<open>Reading a cell as one kind; a registry of the declared type is never read otherwise.\<close>

definition numbersAt :: "store \<Rightarrow> addr \<Rightarrow> nat option list" where
  "numbersAt h a = (if a < length h then (case h ! a of Numbers xs \<Rightarrow> xs | _ \<Rightarrow> []) else [])"

definition stringsAt :: "store \<Rightarrow> addr \<Rightarrow> string list" where
  "stringsAt h a = (if a < length h then (case h ! a of Strings xs \<Rightarrow> xs | _ \<Rightarrow> []) else [])"

definition slotsAt :: "store \<Rightarrow> addr \<Rightarrow> hslot list" where
  "slotsAt h a = (if a < length h then (case h ! a of Slots xs \<Rightarrow> xs | _ \<Rightarrow> []) else [])"

definition objectAt :: "store \<Rightarrow> addr \<Rightarrow> hobject option" where
  "objectAt h a = (if a < length h then (case h ! a of Object d \<Rightarrow> Some d | _ \<Rightarrow> None) else None)"

text \<open>\<open>codepoints[k] = x\<close> on the array at \<open>ca\<close>, in place.\<close>

definition writeAt :: "store \<Rightarrow> addr \<Rightarrow> nat \<Rightarrow> nat \<Rightarrow> store" where
  "writeAt h ca k x = h[ca := Numbers (js_set (numbersAt h ca) k x)]"

text \<open>
  \<open>structuredClone\<close> of a definition object: a deep copy, every array of it copied into
  a new cell (the rows of the \<open>value\<close>, the \<open>value\<close>, the \<open>languages\<close>), the strings and
  numbers as they are. It returns the fields of the copy, which the object literal of
  \<open>getEncoding\<close> spreads.
\<close>

fun cloneSlotList :: "store \<Rightarrow> hslot list \<Rightarrow> hslot list \<times> store" where
  "cloneSlotList h [] = ([], h)"
| "cloneSlotList h (HRow r # xs) =
     (let (r', h1) = alloc h (Numbers (numbersAt h r));
          (ys, h2) = cloneSlotList h1 xs
      in (HRow r' # ys, h2))"
| "cloneSlotList h (x # xs) = (let (ys, h2) = cloneSlotList h xs in (x # ys, h2))"

definition structuredClone :: "store \<Rightarrow> hobject \<Rightarrow> hobject \<times> store" where
  "structuredClone h d =
     (let (l, h1) = (case h_languages d of
                        None \<Rightarrow> (None, h)
                      | Some la \<Rightarrow> (let (la', h') = alloc h (Strings (stringsAt h la)) in (Some la', h')));
          (v, h2) = (case h_value d of
                        None \<Rightarrow> (None, h1)
                      | Some va \<Rightarrow>
                          (let (ys, h') = cloneSlotList h1 (slotsAt h1 va);
                               (va', h'') = alloc h' (Slots ys)
                           in (Some va', h'')))
      in (d\<lparr>h_languages := l, h_value := v\<rparr>, h2))"

text \<open>
  The loops of \<open>getCodepoints\<close> on the store: they read the \<open>value\<close> array at \<open>va\<close> and
  its rows where they are, and write the array at \<open>ca\<close> in place.
\<close>

definition overlayRowH :: "addr \<Rightarrow> addr \<Rightarrow> nat \<Rightarrow> store \<Rightarrow> store" where
  "overlayRowH va ca i h =
     fold (\<lambda>j h. case slotsAt h va ! i of
                    HRow r \<Rightarrow> (case js_get (numbersAt h r) j of
                                 None \<Rightarrow> h
                               | Some subsubvalue \<Rightarrow> writeAt h ca (i * 16 + j) subsubvalue)
                  | _ \<Rightarrow> h)
          [0..<16] h"

definition overlaySparseH :: "addr \<Rightarrow> addr \<Rightarrow> store \<Rightarrow> store" where
  "overlaySparseH va ca h =
     fold (\<lambda>i h. case slotsAt h va ! i of HRow r \<Rightarrow> overlayRowH va ca i h | _ \<Rightarrow> h) [0..<16] h"

definition overlayDenseH :: "nat \<Rightarrow> addr \<Rightarrow> addr \<Rightarrow> store \<Rightarrow> store" where
  "overlayDenseH off va ca h =
     fold (\<lambda>i h. case slotsAt h va ! i of HNum subvalue \<Rightarrow> writeAt h ca (off + i) subvalue | _ \<Rightarrow> h)
          [0..<length (slotsAt h va)] h"

definition overlayValueH :: "hobject \<Rightarrow> addr \<Rightarrow> store \<Rightarrow> store" where
  "overlayValueH d ca h =
     (case h_value d of
        None \<Rightarrow> h
      | Some va \<Rightarrow>
          if length (slotsAt h va) = 16 then overlaySparseH va ca h
          else overlayDenseH (case h_offset d of None \<Rightarrow> 0 | Some off \<Rightarrow> off) va ca h)"

text \<open>
  \<open>getEncoding\<close> and \<open>getCodepoints\<close> on the store. They return the address of the
  object, or of the table, and the store after the call.
\<close>

fun getEncodingH ::
  "nat \<Rightarrow> (string \<rightharpoonup> addr) \<Rightarrow> (string \<rightharpoonup> string) \<Rightarrow> string \<Rightarrow> store \<Rightarrow> (addr \<times> store) outcome"
and getCodepointsH ::
  "nat \<Rightarrow> (string \<rightharpoonup> addr) \<Rightarrow> (string \<rightharpoonup> string) \<Rightarrow> string \<Rightarrow> bool \<Rightarrow> store
     \<Rightarrow> (addr \<times> store) outcome" where
  "getEncodingH 0 reg al cp h = None"
| "getEncodingH (Suc fuel) reg al cp h =
     (let codepage1 = (case al cp of Some a \<Rightarrow> a | None \<Rightarrow> cp);
          codepage2 = (if reg codepage1 = None then ''ascii'' else codepage1)
      in case reg codepage2 of
           None \<Rightarrow> andThen (getCodepointsH fuel reg al codepage2 True h) (\<lambda>r. Some (Inl TypeError))
         | Some da \<Rightarrow>
             (case objectAt h da of
                None \<Rightarrow> Some (Inl TypeError)
              | Some d \<Rightarrow>
                  (let (clone, h1) = structuredClone h d in
                   andThen (getCodepointsH fuel reg al codepage2 True h1) (\<lambda>(ca, h2).
                     Some (Inr (alloc h2 (Object (clone\<lparr>h_codepoints := Some ca\<rparr>))))))))"
| "getCodepointsH 0 reg al cp evaluateExtends h = None"
| "getCodepointsH (Suc fuel) reg al cp evaluateExtends h =
     (case reg cp of
        None \<Rightarrow> Some (Inl TypeError)
      | Some da \<Rightarrow>
          (case objectAt h da of
             None \<Rightarrow> Some (Inl TypeError)
           | Some d \<Rightarrow>
               andThen
                 (if evaluateExtends then
                    (case h_extends d of
                       None \<Rightarrow> Some (Inr (alloc h (Numbers (replicate 256 (Some 0xFFFD)))))
                     | Some parent \<Rightarrow>
                         andThen (getEncodingH fuel reg al parent h) (\<lambda>(ea, h1).
                           case objectAt h1 ea of
                             None \<Rightarrow> Some (Inl TypeError)
                           | Some e \<Rightarrow>
                               (case h_codepoints e of
                                  None \<Rightarrow> Some (Inl TypeError)
                                | Some ca \<Rightarrow> Some (Inr (ca, h1)))))
                  else Some (Inr (alloc h (Numbers (replicate 256 None)))))
                 (\<lambda>(ca, h1). Some (Inr (ca, overlayValueH d ca h1)))))"

text \<open>\<open>encode\<close> and \<open>autoEncode\<close> on the store: the same, the store passed along.\<close>

definition positionH ::
  "nat \<Rightarrow> (string \<rightharpoonup> addr) \<Rightarrow> (string \<rightharpoonup> string) \<Rightarrow> string \<Rightarrow> store
     \<Rightarrow> (nat option list \<times> store) outcome" where
  "positionH fuel reg al cp h =
     andThen (getEncodingH fuel reg al cp h) (\<lambda>(a, h1).
       case objectAt h1 a of
         None \<Rightarrow> Some (Inl TypeError)
       | Some definition \<Rightarrow>
           (case h_codepoints definition of
              None \<Rightarrow> Some (Inl TypeError)
            | Some ca \<Rightarrow> Some (Inr (numbersAt h1 ca, h1))))"

definition encodeH ::
  "nat \<Rightarrow> (string \<rightharpoonup> addr) \<Rightarrow> (string \<rightharpoonup> string) \<Rightarrow> 16 word list \<Rightarrow> string \<Rightarrow> store
     \<Rightarrow> (8 word list \<times> store) outcome" where
  "encodeH fuel reg al input cp h =
     andThen (positionH fuel reg al cp h) (\<lambda>(table, h1).
       Some (Inr (map (\<lambda>c. case findIndex (\<lambda>i. i = codePointAt input c) table of
                              Some position \<Rightarrow> of_nat position
                            | None \<Rightarrow> 0x3F)
                      [0..<length input], h1)))"

fun scanCandidatesH ::
  "nat \<Rightarrow> (string \<rightharpoonup> addr) \<Rightarrow> (string \<rightharpoonup> string) \<Rightarrow> string list \<Rightarrow> nat option \<Rightarrow> store
     \<Rightarrow> ((string \<times> nat) option \<times> store) outcome" where
  "scanCandidatesH fuel reg al [] codePoint h = Some (Inr (None, h))"
| "scanCandidatesH fuel reg al (candidate # rest) codePoint h =
     andThen (positionH fuel reg al candidate h) (\<lambda>(table, h1).
       case findIndex (\<lambda>i. i = codePoint) table of
         Some position \<Rightarrow> Some (Inr (Some (candidate, position), h1))
       | None \<Rightarrow> scanCandidatesH fuel reg al rest codePoint h1)"

definition tryCurrentH ::
  "nat \<Rightarrow> (string \<rightharpoonup> addr) \<Rightarrow> (string \<rightharpoonup> string) \<Rightarrow> currentFragment \<Rightarrow> nat option \<Rightarrow> store
     \<Rightarrow> ((string option \<times> nat) \<times> store) outcome" where
  "tryCurrentH fuel reg al cf codePoint h =
     (case cur_codepage cf of
        None \<Rightarrow> Some (Inr ((None, 0), h))
      | Some cur \<Rightarrow>
          if cur = [] then Some (Inr ((None, 0), h))
          else andThen (positionH fuel reg al cur h) (\<lambda>(table, h1).
                 case findIndex (\<lambda>i. i = codePoint) table of
                   Some position \<Rightarrow> Some (Inr ((Some cur, position), h1))
                 | None \<Rightarrow> Some (Inr ((None, 0), h1))))"

definition tryCandidatesH ::
  "nat \<Rightarrow> (string \<rightharpoonup> addr) \<Rightarrow> (string \<rightharpoonup> string) \<Rightarrow> string list \<Rightarrow> nat option
     \<Rightarrow> string option \<times> nat \<Rightarrow> store \<Rightarrow> ((string option \<times> nat) \<times> store) outcome" where
  "tryCandidatesH fuel reg al candidates codePoint available h =
     (if \<not> truthy (fst available) then
        andThen (scanCandidatesH fuel reg al candidates codePoint h) (\<lambda>(found, h1).
          case found of
            Some (candidate, position) \<Rightarrow> Some (Inr ((Some candidate, position), h1))
          | None \<Rightarrow> Some (Inr (available, h1)))
      else Some (Inr (available, h)))"

definition autoStepH ::
  "nat \<Rightarrow> (string \<rightharpoonup> addr) \<Rightarrow> (string \<rightharpoonup> string) \<Rightarrow> 16 word list \<Rightarrow> string list
     \<Rightarrow> fragment list \<times> currentFragment \<Rightarrow> nat \<Rightarrow> store
     \<Rightarrow> ((fragment list \<times> currentFragment) \<times> store) outcome" where
  "autoStepH fuel reg al input candidates st c h =
     (let codePoint = codePointAt input c in
      andThen (tryCurrentH fuel reg al (snd st) codePoint h) (\<lambda>(available1, h1).
        andThen (tryCandidatesH fuel reg al candidates codePoint available1 h1) (\<lambda>(available2, h2).
          Some (Inr (finishRound candidates st available2, h2)))))"

fun autoLoopH ::
  "nat \<Rightarrow> (string \<rightharpoonup> addr) \<Rightarrow> (string \<rightharpoonup> string) \<Rightarrow> 16 word list \<Rightarrow> string list
     \<Rightarrow> nat list \<Rightarrow> fragment list \<times> currentFragment \<Rightarrow> store
     \<Rightarrow> ((fragment list \<times> currentFragment) \<times> store) outcome" where
  "autoLoopH fuel reg al input candidates [] st h = Some (Inr (st, h))"
| "autoLoopH fuel reg al input candidates (c # cs) st h =
     andThen (autoStepH fuel reg al input candidates st c h)
             (\<lambda>(st1, h1). autoLoopH fuel reg al input candidates cs st1 h1)"

definition autoEncodeH ::
  "nat \<Rightarrow> (string \<rightharpoonup> addr) \<Rightarrow> (string \<rightharpoonup> string) \<Rightarrow> 16 word list \<Rightarrow> string list \<Rightarrow> store
     \<Rightarrow> (fragment list \<times> store) outcome" where
  "autoEncodeH fuel reg al input candidates h =
     andThen (autoLoopH fuel reg al input candidates [0..<length input]
                ([], \<lparr>cur_codepage = None, chars = []\<rparr>) h)
       (\<lambda>((fragments, cf), h1).
          Some (Inr (case cur_codepage cf of
                       None \<Rightarrow> fragments
                     | Some cur \<Rightarrow>
                         if cur = [] then fragments
                         else fragments @ [\<lparr>codepage = cur, bytes = map of_nat (chars cf)\<rparr>],
                     h1)))"

text \<open>
  What the store holds, read as values: a definition object as a \<open>Codepage\<close>, the registry
  as a map to them, a returned object as an \<open>Encoding\<close>.
\<close>

definition absSlot :: "store \<Rightarrow> hslot \<Rightarrow> slot" where
  "absSlot h x = (case x of HHole \<Rightarrow> Hole | HNum n \<Rightarrow> Num n | HRow r \<Rightarrow> Row (numbersAt h r))"

definition absCodepage :: "store \<Rightarrow> hobject \<Rightarrow> Codepage" where
  "absCodepage h d =
     \<lparr>name = h_name d,
      languages = map_option (stringsAt h) (h_languages d),
      extends = h_extends d,
      offset = h_offset d,
      cp_value = map_option (\<lambda>va. map (absSlot h) (slotsAt h va)) (h_value d)\<rparr>"

definition absRegistry :: "store \<Rightarrow> (string \<rightharpoonup> addr) \<Rightarrow> (string \<rightharpoonup> Codepage)" where
  "absRegistry h reg cp =
     (case reg cp of
        None \<Rightarrow> None
      | Some da \<Rightarrow> map_option (absCodepage h) (objectAt h da))"

definition absEncoding :: "store \<Rightarrow> addr \<Rightarrow> Encoding option" where
  "absEncoding h a =
     (case objectAt h a of
        None \<Rightarrow> None
      | Some d \<Rightarrow>
          (case h_codepoints d of
             None \<Rightarrow> None
           | Some ca \<Rightarrow> Some (withCodepoints (absCodepage h d) (numbersAt h ca))))"

text \<open>
  The registry lies in the first \<open>n\<close> cells of the store: every identifier has a
  definition object there, and the arrays of that object are there.
\<close>

definition registry_in :: "nat \<Rightarrow> store \<Rightarrow> (string \<rightharpoonup> addr) \<Rightarrow> bool" where
  "registry_in n h reg =
     (n \<le> length h \<and>
      (\<forall>cp da. reg cp = Some da \<longrightarrow>
         da < n \<and>
         (\<exists>d. h ! da = Object d \<and>
            (\<forall>la. h_languages d = Some la \<longrightarrow> la < n) \<and>
            (\<forall>va. h_value d = Some va \<longrightarrow>
               va < n \<and> (\<forall>r. HRow r \<in> set (slotsAt h va) \<longrightarrow> r < n)))))"

text \<open>Two stores with the same first \<open>n\<close> cells.\<close>

definition same_below :: "nat \<Rightarrow> store \<Rightarrow> store \<Rightarrow> bool" where
  "same_below n h h' = (n \<le> length h \<and> n \<le> length h' \<and> (\<forall>a<n. h' ! a = h ! a))"

text \<open>
  The object at \<open>a\<close> and every array it refers to (its \<open>languages\<close>, its \<open>value\<close> and the
  rows of it, its \<open>codepoints\<close>) are cells from \<open>n\<close> on.
\<close>

definition fresh_object :: "nat \<Rightarrow> store \<Rightarrow> addr \<Rightarrow> bool" where
  "fresh_object n h a =
     (n \<le> a \<and>
      (\<exists>d. objectAt h a = Some d \<and>
         (\<forall>la. h_languages d = Some la \<longrightarrow> n \<le> la) \<and>
         (\<forall>va. h_value d = Some va \<longrightarrow> n \<le> va \<and> (\<forall>r. HRow r \<in> set (slotsAt h va) \<longrightarrow> n \<le> r)) \<and>
         (\<exists>ca. h_codepoints d = Some ca \<and> n \<le> ca)))"

text \<open>The result of a call on the store, without the store: what the caller is handed.\<close>

definition returned :: "('a \<times> store \<Rightarrow> 'b option) \<Rightarrow> ('a \<times> store) outcome \<Rightarrow> 'b outcome" where
  "returned f r =
     (case r of
        None \<Rightarrow> None
      | Some (Inl e) \<Rightarrow> Some (Inl e)
      | Some (Inr x) \<Rightarrow> (case f x of None \<Rightarrow> Some (Inl TypeError) | Some y \<Rightarrow> Some (Inr y)))"

text \<open>
  A call on the store does what the call on values does: it does not return, throws, or
  returns, as that one, and what the two return is related by \<open>P\<close>.
\<close>

definition sim_outcome :: "('a \<Rightarrow> 'b \<Rightarrow> bool) \<Rightarrow> 'a outcome \<Rightarrow> 'b outcome \<Rightarrow> bool" where
  "sim_outcome P r rh =
     (case r of
        None \<Rightarrow> rh = None
      | Some (Inl e) \<Rightarrow> rh = Some (Inl e)
      | Some (Inr x) \<Rightarrow> (\<exists>y. rh = Some (Inr y) \<and> P x y))"

text \<open>
  What a call on the store returns, against the value \<open>e\<close> (or the table \<open>t\<close>) that the call
  on values returns: every cell of the store before the call is as it was, and the object
  (the table) is in new cells and reads as \<open>e\<close> (as \<open>t\<close>).
\<close>

definition encR :: "store \<Rightarrow> Encoding \<Rightarrow> addr \<times> store \<Rightarrow> bool" where
  "encR h e r =
     (case r of (a, h') \<Rightarrow>
        same_below (length h) h h' \<and> a < length h' \<and> fresh_object (length h) h' a \<and>
        absEncoding h' a = Some e \<and>
        (\<exists>d ca xs. objectAt h' a = Some d \<and> h_codepoints d = Some ca \<and> ca < length h' \<and>
                    h' ! ca = Numbers xs))"

definition cpsR :: "store \<Rightarrow> nat option list \<Rightarrow> addr \<times> store \<Rightarrow> bool" where
  "cpsR h t r =
     (case r of (ca, h') \<Rightarrow>
        same_below (length h) h h' \<and> length h \<le> ca \<and> ca < length h' \<and> h' ! ca = Numbers t)"

text \<open>A result handed over with the store: the value by \<open>P\<close>, no earlier cell changed.\<close>

definition relK :: "store \<Rightarrow> ('a \<Rightarrow> 'b \<Rightarrow> bool) \<Rightarrow> 'a \<Rightarrow> 'b \<times> store \<Rightarrow> bool" where
  "relK h P x r = (P x (fst r) \<and> same_below (length h) h (snd r))"

text \<open>
  The small registry in a store: the three definition objects, their \<open>languages\<close> and
  \<open>value\<close> arrays, and the one row of the sparse-diff \<open>value\<close>.
\<close>

definition exampleStore :: store where
  "exampleStore =
     [Object \<lparr>h_name = ''ASCII'', h_languages = Some 1, h_extends = None, h_offset = None,
              h_value = Some 2, h_codepoints = None\<rparr>,
      Strings [''en''],
      Slots (map HNum [0..<128] @ replicate 127 HHole),
      Object \<lparr>h_name = ''Cp437'', h_languages = Some 4, h_extends = Some ''ascii'', h_offset = None,
              h_value = Some 5, h_codepoints = None\<rparr>,
      Strings [''en''],
      Slots (replicate 8 HHole @ [HRow 6] @ replicate 7 HHole),
      Numbers [Some 0xC7, Some 0xFC, Some 0xE9],
      Object \<lparr>h_name = ''Latin 1'', h_languages = None, h_extends = Some ''ascii'',
              h_offset = Some 128, h_value = Some 8, h_codepoints = None\<rparr>,
      Slots (map HNum [128..<256])]"

definition exampleObjects :: "string \<rightharpoonup> addr" where
  "exampleObjects = [''ascii'' \<mapsto> 0, ''cp437'' \<mapsto> 3, ''latin1'' \<mapsto> 7]"

section \<open>Facts about arrays and the overlay loops\<close>

lemma andThen_simps [simp]:
  "andThen None f = None"
  "andThen (Some (Inl e)) f = Some (Inl e)"
  "andThen (Some (Inr x)) f = f x"
  by (simp_all add: andThen_def)

lemma js_get_js_set: "js_get (js_set xs k v) i = (if i = k then Some v else js_get xs i)"
  by (auto simp: js_get_def js_set_def nth_append)

lemma length_js_set: "length (js_set xs k v) = max (length xs) (Suc k)"
  by (auto simp: js_set_def)

lemma findIndex_None: "findIndex p xs = None \<longleftrightarrow> (\<forall>x\<in>set xs. \<not> p x)"
  by (induction xs) auto

lemma findIndex_Some:
  "findIndex p xs = Some i \<longleftrightarrow> i < length xs \<and> p (xs ! i) \<and> (\<forall>j<i. \<not> p (xs ! j))"
proof (induction xs arbitrary: i)
  case Nil
  then show ?case by simp
next
  case (Cons x xs)
  show ?case
  proof (cases "p x")
    case True
    then show ?thesis by (cases i) auto
  next
    case False
    then show ?thesis
      using Cons.IH by (cases i) (auto simp: nth_Cons split: nat.splits)
  qed
qed


lemma fold_writes:
  "js_get (fold (\<lambda>j acc. case w j of None \<Rightarrow> acc | Some v \<Rightarrow> js_set acc (b + j) v) [0..<n] cps) idx =
   (if b \<le> idx \<and> idx < b + n
    then (case w (idx - b) of Some v \<Rightarrow> Some v | None \<Rightarrow> js_get cps idx)
    else js_get cps idx)"
proof (induction n)
  case 0
  then show ?case by auto
next
  case (Suc n)
  show ?case
  proof (cases "idx = b + n")
    case True
    then show ?thesis using Suc.IH by (simp add: js_get_js_set split: option.splits)
  next
    case False
    then have "(b \<le> idx \<and> idx < b + Suc n) = (b \<le> idx \<and> idx < b + n)" by auto
    then show ?thesis using Suc.IH False by (simp add: js_get_js_set split: option.splits)
  qed
qed

lemma fold_writes_length:
  "length cps \<le> length (fold (\<lambda>j acc. case w j of None \<Rightarrow> acc | Some v \<Rightarrow> js_set acc (b + j) v) [0..<n] cps)"
  by (induction n) (auto simp: length_js_set split: option.splits)

lemma fold_writes_length_eq:
  "b + n \<le> length cps \<Longrightarrow>
   length (fold (\<lambda>j acc. case w j of None \<Rightarrow> acc | Some v \<Rightarrow> js_set acc (b + j) v) [0..<n] cps) = length cps"
  by (induction n) (auto simp: length_js_set split: option.splits)


lemma overlayRow_get:
  "js_get (overlayRow i subvalue cps) idx =
   (if i * 16 \<le> idx \<and> idx < i * 16 + 16
    then (case js_get subvalue (idx - i * 16) of Some v \<Rightarrow> Some v | None \<Rightarrow> js_get cps idx)
    else js_get cps idx)"
  unfolding overlayRow_def by (rule fold_writes)

lemma overlayRow_length: "length cps \<le> length (overlayRow i subvalue cps)"
  unfolding overlayRow_def by (rule fold_writes_length)

lemma overlayRow_length_eq:
  "i * 16 + 16 \<le> length cps \<Longrightarrow> length (overlayRow i subvalue cps) = length cps"
  unfolding overlayRow_def by (rule fold_writes_length_eq)

lemma sparse_rows_get:
  "n \<le> 16 \<Longrightarrow>
   js_get (fold (\<lambda>i acc. case v ! i of Row subvalue \<Rightarrow> overlayRow i subvalue acc | _ \<Rightarrow> acc)
             [0..<n] cps) idx =
   (if idx < n * 16
    then (case (case v ! (idx div 16) of Row r \<Rightarrow> js_get r (idx mod 16) | _ \<Rightarrow> None) of
            Some x \<Rightarrow> Some x | None \<Rightarrow> js_get cps idx)
    else js_get cps idx)"
proof (induction n)
  case 0
  then show ?case by simp
next
  case (Suc n)
  then have IH: "js_get (fold (\<lambda>i acc. case v ! i of Row subvalue \<Rightarrow> overlayRow i subvalue acc | _ \<Rightarrow> acc)
             [0..<n] cps) idx =
   (if idx < n * 16
    then (case (case v ! (idx div 16) of Row r \<Rightarrow> js_get r (idx mod 16) | _ \<Rightarrow> None) of
            Some x \<Rightarrow> Some x | None \<Rightarrow> js_get cps idx)
    else js_get cps idx)" by simp
  show ?case
  proof (cases "n * 16 \<le> idx \<and> idx < n * 16 + 16")
    case True
    then have d: "idx div 16 = n"
      by (auto simp: div_nat_eqI)
    have m: "idx mod 16 = idx - n * 16"
      using d by (simp add: modulo_nat_def)
    from True have lt: "idx < Suc n * 16" and nlt: "\<not> idx < n * 16" by auto
    show ?thesis
      using True IH d m lt nlt
      by (cases "v ! n") (simp_all add: overlayRow_get split: option.splits)
  next
    case False
    then have "idx < n * 16 \<or> Suc n * 16 \<le> idx" by auto
    then show ?thesis
    proof
      assume a: "idx < n * 16"
      then have "idx div 16 < n" by (simp add: less_mult_imp_div_less)
      then show ?thesis using a IH False
        by (cases "v ! n") (simp_all add: overlayRow_get split: option.splits)
    next
      assume a: "Suc n * 16 \<le> idx"
      then show ?thesis using IH False
        by (cases "v ! n") (simp_all add: overlayRow_get split: option.splits)
    qed
  qed
qed

lemma overlaySparse_get:
  "js_get (overlaySparse v cps) idx =
   (case sparseRule v idx of Some x \<Rightarrow> Some x | None \<Rightarrow> js_get cps idx)"
  unfolding overlaySparse_def sparseRule_def
  using sparse_rows_get [of 16 v cps idx] by simp

lemma sparse_rows_length:
  "length cps \<le> length (fold (\<lambda>i acc. case v ! i of Row subvalue \<Rightarrow> overlayRow i subvalue acc | _ \<Rightarrow> acc)
             [0..<n] cps)"
proof (induction n)
  case 0
  then show ?case by simp
next
  case (Suc n)
  show ?case
    using Suc.IH overlayRow_length [of "fold (\<lambda>i acc. case v ! i of Row subvalue \<Rightarrow> overlayRow i subvalue acc | _ \<Rightarrow> acc) [0..<n] cps" n]
    by (cases "v ! n") (auto intro: order_trans)
qed

lemma sparse_rows_length_eq:
  "n \<le> 16 \<Longrightarrow> 256 \<le> length cps \<Longrightarrow>
   length (fold (\<lambda>i acc. case v ! i of Row subvalue \<Rightarrow> overlayRow i subvalue acc | _ \<Rightarrow> acc)
             [0..<n] cps) = length cps"
proof (induction n)
  case 0
  then show ?case by simp
next
  case (Suc n)
  then show ?case
    by (cases "v ! n") (simp_all add: overlayRow_length_eq)
qed

lemma overlaySparse_length: "length cps \<le> length (overlaySparse v cps)"
  unfolding overlaySparse_def by (rule sparse_rows_length)

lemma overlaySparse_length_eq: "256 \<le> length cps \<Longrightarrow> length (overlaySparse v cps) = length cps"
  unfolding overlaySparse_def by (rule sparse_rows_length_eq) simp_all

lemma dense_step:
  "(\<lambda>i acc. case v ! i of Num subvalue \<Rightarrow> js_set acc (off + i) subvalue | _ \<Rightarrow> acc) =
   (\<lambda>i acc. case (case v ! i of Num n \<Rightarrow> Some n | _ \<Rightarrow> None) of
               None \<Rightarrow> acc | Some x \<Rightarrow> js_set acc (off + i) x)"
  by (intro ext) (simp split: slot.splits)

lemma overlayDense_get:
  "js_get (overlayDense off v cps) idx =
   (case denseRule off v idx of Some x \<Rightarrow> Some x | None \<Rightarrow> js_get cps idx)"
proof -
  have "off \<le> idx \<and> idx < off + length v \<longleftrightarrow> off \<le> idx \<and> idx - off < length v" by auto
  then show ?thesis
    unfolding overlayDense_def denseRule_def dense_step
    by (simp add: fold_writes)
qed

lemma overlayDense_length: "length cps \<le> length (overlayDense off v cps)"
  unfolding overlayDense_def dense_step by (rule fold_writes_length)

lemma overlayDense_length_eq:
  "off + length v \<le> length cps \<Longrightarrow> length (overlayDense off v cps) = length cps"
  unfolding overlayDense_def dense_step by (rule fold_writes_length_eq)

lemma overlayValue_get:
  "js_get (overlayValue d cps) idx =
   (case decodeRule d idx of Some x \<Rightarrow> Some x | None \<Rightarrow> js_get cps idx)"
  by (simp add: overlayValue_def decodeRule_def overlaySparse_get overlayDense_get
           split: option.splits)

lemma overlayValue_length: "length cps \<le> length (overlayValue d cps)"
  by (simp add: overlayValue_def overlaySparse_length overlayDense_length split: option.splits)

lemma overlayValue_length_eq:
  "value_ok d \<Longrightarrow> length cps = 256 \<Longrightarrow> length (overlayValue d cps) = 256"
  by (auto simp: overlayValue_def value_ok_def overlaySparse_length_eq overlayDense_length_eq
           split: option.splits)

section \<open>Facts about table resolution\<close>

lemma andThen_mono:
  assumes "andThen a f = Some r"
    and "\<And>x. a = Some x \<Longrightarrow> b = Some x"
    and "\<And>y z. a = Some (Inr y) \<Longrightarrow> f y = Some z \<Longrightarrow> g y = Some z"
  shows "andThen b g = Some r"
proof (cases a)
  case None
  then show ?thesis using assms(1) by simp
next
  case (Some x)
  then have b: "b = Some x" using assms(2) by simp
  show ?thesis
  proof (cases x)
    case (Inl e)
    then show ?thesis using assms(1) Some b by simp
  next
    case (Inr y)
    then show ?thesis using assms(1) assms(3) [of y r] Some b by simp
  qed
qed

lemma getEncoding_Suc:
  "getEncoding (Suc fuel) defs al cp =
     andThen (getCodepoints fuel defs al (resolveName defs al cp) True) (\<lambda>cps.
       case defs (resolveName defs al cp) of
         None \<Rightarrow> Some (Inl TypeError)
       | Some d \<Rightarrow>
           Some (Inr \<lparr>name = name d, languages = languages d, extends = extends d,
                      offset = offset d, cp_value = cp_value d, codepoints = cps\<rparr>))"
  by (simp add: resolveName_def Let_def)

lemma fuel_mono_both:
  "(\<forall>cp m r. getEncoding n defs al cp = Some r \<longrightarrow> n \<le> m \<longrightarrow> getEncoding m defs al cp = Some r) \<and>
   (\<forall>cp ev m r. getCodepoints n defs al cp ev = Some r \<longrightarrow> n \<le> m \<longrightarrow> getCodepoints m defs al cp ev = Some r)"
proof (induction n)
  case 0
  then show ?case by simp
next
  case (Suc n)
  have IHe: "\<And>cp m r. getEncoding n defs al cp = Some r \<Longrightarrow> n \<le> m \<Longrightarrow> getEncoding m defs al cp = Some r"
    using Suc.IH by blast
  have IHc: "\<And>cp ev m r. getCodepoints n defs al cp ev = Some r \<Longrightarrow> n \<le> m \<Longrightarrow> getCodepoints m defs al cp ev = Some r"
    using Suc.IH by blast
  have enc: "getEncoding m defs al cp = Some r"
    if h: "getEncoding (Suc n) defs al cp = Some r" and le: "Suc n \<le> m" for cp m r
  proof -
    obtain m' where m: "m = Suc m'" and le': "n \<le> m'" using le by (cases m) auto
    show ?thesis
      using h unfolding m getEncoding_Suc
    proof (rule andThen_mono)
      fix x assume "getCodepoints n defs al (resolveName defs al cp) True = Some x"
      then show "getCodepoints m' defs al (resolveName defs al cp) True = Some x"
        using le' by (rule IHc)
    qed
  qed
  have cps: "getCodepoints m defs al cp ev = Some r"
    if h: "getCodepoints (Suc n) defs al cp ev = Some r" and le: "Suc n \<le> m" for cp ev m r
  proof -
    obtain m' where m: "m = Suc m'" and le': "n \<le> m'" using le by (cases m) auto
    show ?thesis
    proof (cases "defs cp")
      case None
      then show ?thesis using h m by simp
    next
      case (Some d)
      define base where "base k =
         (if ev then
               (case extends d of
                  None \<Rightarrow> Some (Inr (replicate 256 (Some 0xFFFD)))
                | Some parent \<Rightarrow>
                    andThen (getEncoding k defs al parent) (\<lambda>e. Some (Inr (codepoints e))))
             else Some (Inr (replicate 256 None)))" for k
      have par: "andThen (getEncoding m' defs al parent) (\<lambda>e. Some (Inr (codepoints e))) = Some x"
        if p: "andThen (getEncoding n defs al parent) (\<lambda>e. Some (Inr (codepoints e))) = Some x" for parent x
        using p
      proof (rule andThen_mono)
        fix y assume "getEncoding n defs al parent = Some y"
        then show "getEncoding m' defs al parent = Some y" using le' by (rule IHe)
      qed
      have base_mono: "base m' = Some x" if "base n = Some x" for x
        using that par unfolding base_def by (auto split: if_splits option.splits)
      have hn: "andThen (base n) (\<lambda>cps. Some (Inr (overlayValue d cps))) = Some r"
        using h Some unfolding base_def by simp
      have "andThen (base m') (\<lambda>cps. Some (Inr (overlayValue d cps))) = Some r"
        using hn
      proof (rule andThen_mono)
        fix x assume "base n = Some x"
        then show "base m' = Some x" by (rule base_mono)
      qed
      then show ?thesis using Some unfolding m base_def by simp
    qed
  qed
  show ?case using enc cps by blast
qed

lemma getEncoding_fuel_mono:
  "getEncoding n defs al cp = Some r \<Longrightarrow> n \<le> m \<Longrightarrow> getEncoding m defs al cp = Some r"
  using fuel_mono_both by blast

lemma getCodepoints_fuel_mono:
  "getCodepoints n defs al cp ev = Some r \<Longrightarrow> n \<le> m \<Longrightarrow> getCodepoints m defs al cp ev = Some r"
  using fuel_mono_both by blast

lemma resolveName_in_dom:
  "defs ''ascii'' \<noteq> None \<Longrightarrow> defs (resolveName defs al cp) \<noteq> None"
  by (simp add: resolveName_def Let_def)


lemma getCodepoints_total:
  "chain_ok defs al rank \<Longrightarrow> defs cp = Some d \<Longrightarrow> 2 * rank cp + 1 \<le> fuel \<Longrightarrow>
   \<exists>t. getCodepoints fuel defs al cp True = Some (Inr t)"
proof (induction fuel arbitrary: cp d rule: less_induct)
  case (less fuel)
  obtain f where f: "fuel = Suc f" using less.prems(3) by (cases fuel) auto
  show ?case
  proof (cases "extends d")
    case None
    then show ?thesis using less.prems(2) f by simp
  next
    case (Some parent)
    let ?q = "resolveName defs al parent"
    have rk: "rank ?q < rank cp"
      using less.prems(1,2) Some by (auto simp: chain_ok_def)
    obtain dq where dq: "defs ?q = Some dq"
      using resolveName_in_dom [of defs al parent] less.prems(1) by (auto simp: chain_ok_def)
    obtain f' where f': "f = Suc f'" using less.prems(3) rk f by (cases f) auto
    have "2 * rank ?q + 1 \<le> f'" using less.prems(3) rk f f' by simp
    moreover have "f' < fuel" using f f' by simp
    ultimately obtain t where t: "getCodepoints f' defs al ?q True = Some (Inr t)"
      using less.IH [of f' ?q dq] less.prems(1) dq by blast
    have "\<exists>e. getEncoding f defs al parent = Some (Inr e)"
      unfolding f' getEncoding_Suc using t dq by simp
    then show ?thesis using less.prems(2) Some f by auto
  qed
qed

lemma getEncoding_total:
  assumes "chain_ok defs al rank" and "2 * rank (resolveName defs al cp) + 2 \<le> fuel"
  shows "\<exists>e. getEncoding fuel defs al cp = Some (Inr e)"
proof -
  obtain f where f: "fuel = Suc f" using assms(2) by (cases fuel) auto
  obtain d where d: "defs (resolveName defs al cp) = Some d"
    using resolveName_in_dom [of defs al cp] assms(1) by (auto simp: chain_ok_def)
  have "2 * rank (resolveName defs al cp) + 1 \<le> f" using assms(2) f by simp
  then obtain t where "getCodepoints f defs al (resolveName defs al cp) True = Some (Inr t)"
    using getCodepoints_total [OF assms(1) d] by blast
  then show ?thesis unfolding f getEncoding_Suc using d by simp
qed

lemma andThen_Inr_iff:
  "andThen m f = Some (Inr y) \<longleftrightarrow> (\<exists>x. m = Some (Inr x) \<and> f x = Some (Inr y))"
  by (auto simp: andThen_def split: option.splits sum.splits)

lemma getEncoding_Inr:
  assumes "getEncoding fuel defs al cp = Some (Inr e)"
  obtains f d t where "fuel = Suc f" and "defs (resolveName defs al cp) = Some d"
    and "getCodepoints f defs al (resolveName defs al cp) True = Some (Inr t)"
    and "e = \<lparr>name = name d, languages = languages d, extends = extends d,
              offset = offset d, cp_value = cp_value d, codepoints = t\<rparr>"
proof -
  obtain f where f: "fuel = Suc f" using assms by (cases fuel) auto
  show ?thesis
    using assms that unfolding f getEncoding_Suc
    by (auto simp: andThen_Inr_iff split: option.splits)
qed

lemma getCodepoints_Suc:
  "getCodepoints (Suc fuel) defs al cp ev =
     (case defs cp of
        None \<Rightarrow> Some (Inl TypeError)
      | Some d \<Rightarrow> andThen (baseTable fuel defs al d ev) (\<lambda>cps. Some (Inr (overlayValue d cps))))"
  by (simp add: baseTable_def split: option.splits)

lemma getCodepoints_Inr:
  assumes "getCodepoints fuel defs al cp ev = Some (Inr t)"
  obtains f d base where "fuel = Suc f" and "defs cp = Some d"
    and "baseTable f defs al d ev = Some (Inr base)" and "t = overlayValue d base"
proof -
  obtain f where f: "fuel = Suc f" using assms by (cases fuel) auto
  show ?thesis
    using assms that unfolding f getCodepoints_Suc
    by (auto simp: andThen_Inr_iff split: option.splits)
qed

lemma table_length_both:
  "(\<forall>cp e. getEncoding n defs al cp = Some (Inr e) \<longrightarrow> 256 \<le> length (codepoints e)) \<and>
   (\<forall>cp ev t. getCodepoints n defs al cp ev = Some (Inr t) \<longrightarrow> 256 \<le> length t)"
proof (induction n)
  case 0
  then show ?case by simp
next
  case (Suc n)
  have c: "256 \<le> length t" if h: "getCodepoints (Suc n) defs al cp ev = Some (Inr t)" for cp ev t
  proof -
    from h obtain f d base where f: "Suc n = Suc f" and d: "defs cp = Some d"
      and b: "baseTable f defs al d ev = Some (Inr base)" and t: "t = overlayValue d base"
      by (rule getCodepoints_Inr)
    have "256 \<le> length base"
      using b f Suc.IH
      by (auto simp: baseTable_def andThen_Inr_iff split: if_splits option.splits)
    then show ?thesis using overlayValue_length [of base d] t by simp
  qed
  have e: "256 \<le> length (codepoints e)" if h: "getEncoding (Suc n) defs al cp = Some (Inr e)" for cp e
  proof -
    from h obtain f d t where "Suc n = Suc f" "defs (resolveName defs al cp) = Some d"
      "getCodepoints f defs al (resolveName defs al cp) True = Some (Inr t)"
      "e = \<lparr>name = name d, languages = languages d, extends = extends d,
              offset = offset d, cp_value = cp_value d, codepoints = t\<rparr>"
      by (rule getEncoding_Inr)
    then show ?thesis using Suc.IH by auto
  qed
  show ?case using c e by blast
qed

lemma getEncoding_length_ge:
  "getEncoding n defs al cp = Some (Inr e) \<Longrightarrow> 256 \<le> length (codepoints e)"
  using table_length_both by blast

lemma getCodepoints_length_ge:
  "getCodepoints n defs al cp ev = Some (Inr t) \<Longrightarrow> 256 \<le> length t"
  using table_length_both by blast

lemma decodeRule_valid:
  assumes "value_ok d" and "decodeRule d idx = Some n"
  shows "validCodePoint n"
proof -
  obtain v where v: "cp_value d = Some v"
    using assms(2) by (cases "cp_value d") (auto simp: decodeRule_def)
  have ok: "\<And>k. k < length v \<Longrightarrow> slot_ok (v ! k)"
    using assms(1) v by (simp add: value_ok_def list_all_length)
  show ?thesis
  proof (cases "length v = 16")
    case True
    then have s: "sparseRule v idx = Some n" using assms(2) v by (simp add: decodeRule_def)
    then have lt: "idx < 256" by (auto simp: sparseRule_def split: if_splits)
    then have "idx div 16 < length v" using True by simp
    then have so: "slot_ok (v ! (idx div 16))" by (rule ok)
    obtain r where r: "v ! (idx div 16) = Row r" and g: "js_get r (idx mod 16) = Some n"
      using s lt by (auto simp: sparseRule_def split: slot.splits)
    have "Some n \<in> set r" using g
      by (metis js_get_def nth_mem option.distinct(1))
    then show ?thesis using so r by (auto simp: list_all_iff)
  next
    case False
    then have "denseRule (case offset d of None \<Rightarrow> 0 | Some off \<Rightarrow> off) v idx = Some n"
      using assms(2) v by (simp add: decodeRule_def)
    then obtain k where "k < length v" "v ! k = Num n"
      by (auto simp: denseRule_def split: if_splits slot.splits)
    then show ?thesis using ok [of k] by simp
  qed
qed

lemma table_inv_nth:
  "table_inv t \<longleftrightarrow> length t = 256 \<and> (\<forall>i<256. entry_ok (js_get t i))"
  by (auto simp: table_inv_def list_all_length js_get_def)

lemma overlayValue_inv:
  assumes "value_ok d" and "table_inv base"
  shows "table_inv (overlayValue d base)"
proof -
  have len: "length (overlayValue d base) = 256"
    using assms by (simp add: overlayValue_length_eq table_inv_def)
  have "entry_ok (js_get (overlayValue d base) i)" if "i < 256" for i
  proof (cases "decodeRule d i")
    case None
    then show ?thesis using assms(2) that by (simp add: overlayValue_get table_inv_nth)
  next
    case (Some n)
    then show ?thesis
      using decodeRule_valid [OF assms(1) Some] by (simp add: overlayValue_get entry_ok_def)
  qed
  then show ?thesis using len by (simp add: table_inv_nth)
qed

lemma sentinel_table_inv: "table_inv (replicate 256 (Some 0xFFFD))"
  by (simp add: table_inv_def list_all_length entry_ok_def)

lemma table_inv_both:
  assumes "format_ok defs"
  shows "(\<forall>cp e. getEncoding n defs al cp = Some (Inr e) \<longrightarrow> table_inv (codepoints e)) \<and>
         (\<forall>cp t. getCodepoints n defs al cp True = Some (Inr t) \<longrightarrow> table_inv t)"
proof (induction n)
  case 0
  then show ?case by simp
next
  case (Suc n)
  have c: "table_inv t" if h: "getCodepoints (Suc n) defs al cp True = Some (Inr t)" for cp t
  proof -
    from h obtain f d base where f: "Suc n = Suc f" and d: "defs cp = Some d"
      and b: "baseTable f defs al d True = Some (Inr base)" and t: "t = overlayValue d base"
      by (rule getCodepoints_Inr)
    have "table_inv base"
      using b f Suc.IH sentinel_table_inv
      by (auto simp: baseTable_def andThen_Inr_iff split: option.splits)
    moreover have "value_ok d" using assms d by (auto simp: format_ok_def)
    ultimately show ?thesis using t by (simp add: overlayValue_inv)
  qed
  have e: "table_inv (codepoints e)" if h: "getEncoding (Suc n) defs al cp = Some (Inr e)" for cp e
  proof -
    from h obtain f d t where "Suc n = Suc f" "defs (resolveName defs al cp) = Some d"
      "getCodepoints f defs al (resolveName defs al cp) True = Some (Inr t)"
      "e = \<lparr>name = name d, languages = languages d, extends = extends d,
              offset = offset d, cp_value = cp_value d, codepoints = t\<rparr>"
      by (rule getEncoding_Inr)
    then show ?thesis using Suc.IH by auto
  qed
  show ?case using c e by blast
qed

lemma getEncoding_table_inv:
  "format_ok defs \<Longrightarrow> getEncoding n defs al cp = Some (Inr e) \<Longrightarrow> table_inv (codepoints e)"
  using table_inv_both by blast

lemma example_chain_ok: "chain_ok exampleDefinitions exampleAliases exampleRank"
  by (auto simp: chain_ok_def exampleDefinitions_def exampleAliases_def exampleRank_def
        resolveName_def exampleAscii_def exampleCp437_def exampleLatin1_def split: if_splits)

lemma example_format_ok: "format_ok exampleDefinitions"
  by (auto simp: format_ok_def value_ok_def exampleDefinitions_def 
        exampleAscii_def exampleCp437_def exampleLatin1_def validCodePoint_def list_all_iff split: if_splits)

lemma getCodepoints_total_any:
  assumes "chain_ok defs al rank" and "defs cp = Some d" and "2 * rank cp + 1 \<le> fuel"
  shows "\<exists>t. getCodepoints fuel defs al cp ev = Some (Inr t)"
proof (cases ev)
  case True
  then show ?thesis using getCodepoints_total [OF assms] by simp
next
  case False
  obtain f where "fuel = Suc f" using assms(3) by (cases fuel) auto
  then show ?thesis using False assms(2) by simp
qed

section \<open>The small registry, resolved\<close>

lemma findIndex_append:
  "findIndex p (xs @ ys) =
     (case findIndex p xs of
        Some i \<Rightarrow> Some i
      | None \<Rightarrow> map_option (\<lambda>i. length xs + i) (findIndex p ys))"
  by (induction xs) (auto split: option.splits simp: map_option_case)

lemma findIndex_map_Some_upt:
  "findIndex (\<lambda>i. i = Some c) (map Some [a..<b]) = (if a \<le> c \<and> c < b then Some (c - a) else None)"
proof (cases "a \<le> c \<and> c < b")
  case True
  then show ?thesis by (auto simp: findIndex_Some)
next
  case False
  then show ?thesis by (auto simp: findIndex_None)
qed

lemma findIndex_replicate:
  "findIndex p (replicate n x) = (if 0 < n \<and> p x then Some 0 else None)"
  by (cases n) (auto simp: findIndex_None)

lemma decode_exampleAscii:
  "decodeRule exampleAscii i = (if i < 128 then Some i else None)"
  by (auto simp: decodeRule_def exampleAscii_def denseRule_def nth_append simp del: upt_rec_numeral)

lemma decode_exampleLatin1:
  "decodeRule exampleLatin1 i = (if 128 \<le> i \<and> i < 256 then Some i else None)"
  by (auto simp: decodeRule_def exampleLatin1_def denseRule_def nth_append simp del: upt_rec_numeral)

lemma decode_exampleCp437:
  "decodeRule exampleCp437 i =
     (if i = 128 then Some 0xC7 else if i = 129 then Some 0xFC else if i = 130 then Some 0xE9 else None)"
proof -
  let ?v = "replicate 8 Hole @ [Row [Some 0xC7, Some 0xFC, Some 0xE9]] @ replicate 7 Hole"
  have v8: "?v ! k = (if k = 8 then Row [Some 0xC7, Some 0xFC, Some 0xE9] else Hole)" if "k < 16" for k
    using that by (auto simp: nth_append nth_Cons split: nat.splits)
  show ?thesis
  proof (cases "i < 256")
    case False
    then show ?thesis by (simp add: decodeRule_def exampleCp437_def sparseRule_def)
  next
    case True
    then have k: "i div 16 < 16" by simp
    have r: "decodeRule exampleCp437 i = (case ?v ! (i div 16) of Row r \<Rightarrow> js_get r (i mod 16) | _ \<Rightarrow> None)"
      using True by (simp add: decodeRule_def exampleCp437_def sparseRule_def)
    show ?thesis
    proof (cases "i div 16 = 8")
      case False
      then have "i \<noteq> 128" "i \<noteq> 129" "i \<noteq> 130" by auto
      then show ?thesis using False r v8 [OF k] by simp
    next
      case True
      then have "i mod 16 = i - 128" by (simp add: modulo_nat_def)
      moreover have "128 \<le> i" using True by arith
      ultimately show ?thesis
        using True r v8 [OF k]
        by (auto simp: js_get_def nth_Cons split: nat.splits)
    qed
  qed
qed


lemma overlayValue_eqI:
  assumes "value_ok d" and "length base = 256" and "length t = 256"
    and "\<And>i. i < 256 \<Longrightarrow> t ! i = (case decodeRule d i of Some x \<Rightarrow> Some x | None \<Rightarrow> base ! i)"
  shows "overlayValue d base = t"
proof (rule nth_equalityI)
  show len: "length (overlayValue d base) = length t"
    using assms(1-3) by (simp add: overlayValue_length_eq)
  fix i assume "i < length (overlayValue d base)"
  then have i: "i < 256" using len assms(3) by simp
  have a: "overlayValue d base ! i = js_get (overlayValue d base) i"
    using i len assms(3) by (simp add: js_get_def)
  have b: "js_get (overlayValue d base) i =
             (case decodeRule d i of Some x \<Rightarrow> Some x | None \<Rightarrow> js_get base i)"
    by (rule overlayValue_get)
  have c: "js_get base i = base ! i" using i assms(2) by (simp add: js_get_def)
  show "overlayValue d base ! i = t ! i" using a b c assms(4) [OF i]
    by (simp split: option.splits)
qed

lemma example_lookup:
  "exampleDefinitions ''ascii'' = Some exampleAscii"
  "exampleDefinitions ''cp437'' = Some exampleCp437"
  "exampleDefinitions ''latin1'' = Some exampleLatin1"
  by (simp_all add: exampleDefinitions_def)

lemma example_extends:
  "extends exampleAscii = None"
  "extends exampleCp437 = Some ''ascii''"
  "extends exampleLatin1 = Some ''ascii''"
  by (simp_all add: exampleAscii_def exampleCp437_def exampleLatin1_def)

lemma example_value_ok:
  "value_ok exampleAscii" "value_ok exampleCp437" "value_ok exampleLatin1"
  using example_format_ok example_lookup unfolding format_ok_def by blast+

lemma exampleAscii_table:
  "overlayValue exampleAscii (replicate 256 (Some 0xFFFD)) = exampleAsciiTable"
  by (rule overlayValue_eqI)
     (auto simp: example_value_ok exampleAsciiTable_def decode_exampleAscii nth_append
           simp del: upt_rec_numeral)

lemma exampleAsciiTable_nth:
  "i < 256 \<Longrightarrow> exampleAsciiTable ! i = (if i < 128 then Some i else Some 0xFFFD)"
  by (auto simp: exampleAsciiTable_def nth_append simp del: upt_rec_numeral)

lemma exampleCp437_table: "overlayValue exampleCp437 exampleAsciiTable = exampleCp437Table"
proof (rule overlayValue_eqI)
  show "value_ok exampleCp437" by (rule example_value_ok)
  show "length exampleAsciiTable = 256" by (simp add: exampleAsciiTable_def)
  show "length exampleCp437Table = 256" by (simp add: exampleCp437Table_def)
  fix i :: nat assume i: "i < 256"
  show "exampleCp437Table ! i =
         (case decodeRule exampleCp437 i of None \<Rightarrow> exampleAsciiTable ! i | Some x \<Rightarrow> Some x)"
    using i
    by (auto simp: exampleCp437Table_def exampleAsciiTable_nth decode_exampleCp437 nth_append nth_Cons
             simp del: upt_rec_numeral split: nat.splits)
qed

lemma exampleLatin1_table: "overlayValue exampleLatin1 exampleAsciiTable = exampleLatin1Table"
proof (rule overlayValue_eqI)
  show "value_ok exampleLatin1" by (rule example_value_ok)
  show "length exampleAsciiTable = 256" by (simp add: exampleAsciiTable_def)
  show "length exampleLatin1Table = 256" by (simp add: exampleLatin1Table_def)
  fix i :: nat assume i: "i < 256"
  show "exampleLatin1Table ! i =
         (case decodeRule exampleLatin1 i of None \<Rightarrow> exampleAsciiTable ! i | Some x \<Rightarrow> Some x)"
    using i
    by (auto simp: exampleLatin1Table_def exampleAsciiTable_nth decode_exampleLatin1
             simp del: upt_rec_numeral)
qed

lemma example_getEncoding_ascii:
  "resolveName exampleDefinitions exampleAliases cp = ''ascii'' \<Longrightarrow>
   getEncoding (Suc (Suc n)) exampleDefinitions exampleAliases cp =
     Some (Inr (withCodepoints exampleAscii exampleAsciiTable))"
  unfolding getEncoding_Suc getCodepoints_Suc
  by (simp add: example_lookup example_extends baseTable_def exampleAscii_table withCodepoints_def)

lemma example_getEncoding_cp437:
  "resolveName exampleDefinitions exampleAliases cp = ''cp437'' \<Longrightarrow>
   getEncoding (Suc (Suc (Suc (Suc n)))) exampleDefinitions exampleAliases cp =
     Some (Inr (withCodepoints exampleCp437 exampleCp437Table))"
proof -
  assume r: "resolveName exampleDefinitions exampleAliases cp = ''cp437''"
  have p: "resolveName exampleDefinitions exampleAliases ''ascii'' = ''ascii''"
    by (simp add: resolveName_def exampleAliases_def exampleDefinitions_def)
  have b: "baseTable (Suc (Suc n)) exampleDefinitions exampleAliases exampleCp437 True =
        Some (Inr exampleAsciiTable)"
    using example_getEncoding_ascii [OF p, of n]
    by (simp add: baseTable_def withCodepoints_def example_extends)
  show ?thesis
    unfolding getEncoding_Suc [of "Suc (Suc (Suc n))"] getCodepoints_Suc r
    by (simp add: example_lookup b exampleCp437_table withCodepoints_def)
qed

lemma example_getEncoding_latin1:
  "resolveName exampleDefinitions exampleAliases cp = ''latin1'' \<Longrightarrow>
   getEncoding (Suc (Suc (Suc (Suc n)))) exampleDefinitions exampleAliases cp =
     Some (Inr (withCodepoints exampleLatin1 exampleLatin1Table))"
proof -
  assume r: "resolveName exampleDefinitions exampleAliases cp = ''latin1''"
  have p: "resolveName exampleDefinitions exampleAliases ''ascii'' = ''ascii''"
    by (simp add: resolveName_def exampleAliases_def exampleDefinitions_def)
  have b: "baseTable (Suc (Suc n)) exampleDefinitions exampleAliases exampleLatin1 True =
        Some (Inr exampleAsciiTable)"
    using example_getEncoding_ascii [OF p, of n]
    by (simp add: baseTable_def withCodepoints_def example_extends)
  show ?thesis
    unfolding getEncoding_Suc [of "Suc (Suc (Suc n))"] getCodepoints_Suc r
    by (simp add: example_lookup b exampleLatin1_table withCodepoints_def)
qed

lemma example_getEncoding:
  "getEncoding 4 exampleDefinitions exampleAliases cp =
     Some (Inr (if resolveName exampleDefinitions exampleAliases cp = ''cp437''
                then withCodepoints exampleCp437 exampleCp437Table
                else if resolveName exampleDefinitions exampleAliases cp = ''latin1''
                then withCodepoints exampleLatin1 exampleLatin1Table
                else withCodepoints exampleAscii exampleAsciiTable))"
proof -
  have 4: "(4::nat) = Suc (Suc (Suc (Suc 0)))" by simp
  have "resolveName exampleDefinitions exampleAliases cp = ''cp437'' \<or>
        resolveName exampleDefinitions exampleAliases cp = ''latin1'' \<or>
        resolveName exampleDefinitions exampleAliases cp = ''ascii''"
    by (auto simp: resolveName_def exampleDefinitions_def exampleAliases_def Let_def split: if_splits option.splits)
  then show ?thesis
    unfolding 4
    by (auto simp: example_getEncoding_ascii example_getEncoding_cp437 example_getEncoding_latin1
             simp del: getEncoding.simps)
qed

lemma example_findIndex:
  "findIndex (\<lambda>i. i = Some c) exampleAsciiTable =
     (if c < 128 then Some c else if c = 0xFFFD then Some 128 else None)"
  "findIndex (\<lambda>i. i = Some c) exampleCp437Table =
     (if c < 128 then Some c else if c = 0xC7 then Some 128 else if c = 0xFC then Some 129
      else if c = 0xE9 then Some 130 else if c = 0xFFFD then Some 131 else None)"
  "findIndex (\<lambda>i. i = Some c) exampleLatin1Table = (if c < 256 then Some c else None)"
  by (simp_all add: exampleAsciiTable_def exampleCp437Table_def exampleLatin1Table_def
        findIndex_append findIndex_map_Some_upt findIndex_replicate del: upt_rec_numeral)

lemma example_resolveName:
  "resolveName exampleDefinitions exampleAliases ''ascii'' = ''ascii''"
  "resolveName exampleDefinitions exampleAliases ''cp437'' = ''cp437''"
  "resolveName exampleDefinitions exampleAliases ''ibm437'' = ''cp437''"
  "resolveName exampleDefinitions exampleAliases ''latin1'' = ''latin1''"
  "resolveName exampleDefinitions exampleAliases '''' = ''ascii''"
  by (simp_all add: resolveName_def exampleDefinitions_def exampleAliases_def)

lemma withCodepoints_codepoints: "codepoints (withCodepoints d t) = t"
  by (simp add: withCodepoints_def)

lemmas example_eval =
  example_getEncoding example_resolveName example_findIndex withCodepoints_codepoints

section \<open>Facts about the segmentation loop\<close>

lemma autoStep_unfold:
  "autoStep fuel defs al input candidates st c =
     (let fragments = fst st; cf = snd st; codePoint = codePointAt input c in
      andThen
        (case cur_codepage cf of
           None \<Rightarrow> Some (Inr (None, 0))
         | Some cur \<Rightarrow>
             if cur = [] then Some (Inr (None, 0))
             else andThen (getEncoding fuel defs al cur) (\<lambda>definition.
                    case findIndex (\<lambda>i. i = codePoint) (codepoints definition) of
                      Some position \<Rightarrow> Some (Inr (Some cur, position))
                    | None \<Rightarrow> Some (Inr (None, 0))))
        (\<lambda>(available1, char1).
           andThen
             (if \<not> truthy available1 then
                andThen (scanCandidates fuel defs al candidates codePoint) (\<lambda>found.
                  case found of
                    Some (candidate, position) \<Rightarrow> Some (Inr (Some candidate, position))
                  | None \<Rightarrow> Some (Inr (available1, char1)))
              else Some (Inr (available1, char1)))
             (\<lambda>(available2, char2).
                let (availableCodepage, char) =
                      (if \<not> truthy available2 then
                         (if truthy (cur_codepage cf) then cur_codepage cf
                          else (case candidates of [] \<Rightarrow> None | first # _ \<Rightarrow> Some first),
                          0x3F)
                       else (available2, char2));
                    (fragments', cf') =
                      (if cur_codepage cf \<noteq> availableCodepage then
                         ((case cur_codepage cf of
                             None \<Rightarrow> fragments
                           | Some cur \<Rightarrow>
                               if cur = [] then fragments
                               else fragments @ [\<lparr>codepage = cur, bytes = map of_nat (chars cf)\<rparr>]),
                          \<lparr>cur_codepage = availableCodepage, chars = []\<rparr>)
                       else (fragments, cf))
                in Some (Inr (fragments', cf'\<lparr>chars := chars cf' @ [char]\<rparr>)))))"
  by (cases st)
     (auto simp: autoStep_def tryCurrent_def tryCandidates_def finishRound_def Let_def andThen_def
           split: option.splits sum.splits prod.splits)

lemma autoLoop_append:
  "autoLoop fuel defs al s cands (xs @ ys) st =
     andThen (autoLoop fuel defs al s cands xs st) (autoLoop fuel defs al s cands ys)"
proof (induction xs arbitrary: st)
  case Nil
  then show ?case by simp
next
  case (Cons x xs)
  show ?case
  proof (cases "autoStep fuel defs al s cands st x")
    case None
    then show ?thesis by simp
  next
    case (Some r)
    then show ?thesis using Cons.IH by (cases r) simp_all
  qed
qed

lemma scanCandidates_total:
  assumes "\<forall>c\<in>set cands. \<exists>e. getEncoding fuel defs al c = Some (Inr e)"
  shows "\<exists>r. scanCandidates fuel defs al cands cp = Some (Inr r) \<and>
             (\<forall>c pos. r = Some (c, pos) \<longrightarrow> c \<in> set cands)"
  using assms
proof (induction cands)
  case Nil
  then show ?case by simp
next
  case (Cons a cands)
  then obtain e where e: "getEncoding fuel defs al a = Some (Inr e)" by auto
  show ?case
  proof (cases "findIndex (\<lambda>i. i = cp) (codepoints e)")
    case None
    then show ?thesis using Cons e by auto
  next
    case (Some pos)
    then show ?thesis using e by simp
  qed
qed

text \<open>The three stages of a round, once the lookups have returned.\<close>

lemma autoStep_sticky:
  assumes "cur_codepage cf = Some cur" and "cur \<noteq> []"
    and "getEncoding fuel defs al cur = Some (Inr e)"
    and "findIndex (\<lambda>i. i = codePointAt s c) (codepoints e) = Some pos"
  shows "autoStep fuel defs al s cands (frs, cf) c = Some (Inr (frs, cf\<lparr>chars := chars cf @ [pos]\<rparr>))"
  using assms by (simp add: autoStep_unfold truthy_def)

lemma autoStep_scan:
  assumes "cur_codepage cf = None \<or> cur_codepage cf = Some [] \<or>
           (\<exists>cur e. cur_codepage cf = Some cur \<and> getEncoding fuel defs al cur = Some (Inr e) \<and>
              findIndex (\<lambda>i. i = codePointAt s c) (codepoints e) = None)"
    and "scanCandidates fuel defs al cands (codePointAt s c) = Some (Inr found)"
  shows "autoStep fuel defs al s cands (frs, cf) c =
     (let (availableCodepage, char) =
            (case found of
               Some (candidate, position) \<Rightarrow>
                 if candidate \<noteq> [] then (Some candidate, position)
                 else (if truthy (cur_codepage cf) then cur_codepage cf
                       else (case cands of [] \<Rightarrow> None | first # _ \<Rightarrow> Some first), 0x3F)
             | None \<Rightarrow>
                 (if truthy (cur_codepage cf) then cur_codepage cf
                  else (case cands of [] \<Rightarrow> None | first # _ \<Rightarrow> Some first), 0x3F));
          (fragments', cf') =
            (if cur_codepage cf \<noteq> availableCodepage then
               ((case cur_codepage cf of
                   None \<Rightarrow> frs
                 | Some cur \<Rightarrow>
                     if cur = [] then frs
                     else frs @ [\<lparr>codepage = cur, bytes = map of_nat (chars cf)\<rparr>]),
                \<lparr>cur_codepage = availableCodepage, chars = []\<rparr>)
             else (frs, cf))
      in Some (Inr (fragments', cf'\<lparr>chars := chars cf' @ [char]\<rparr>)))"
  using assms
  by (auto simp: autoStep_unfold truthy_def Let_def split: option.splits prod.splits)

lemma autoStep_counts:
  assumes tot: "\<forall>c\<in>set cands. \<exists>e. getEncoding fuel defs al c = Some (Inr e)"
    and ne: "cands \<noteq> []" "hd cands \<noteq> []"
    and cnt: "sum_list (map (\<lambda>f. length (bytes f)) frs) + length (chars cf) = k"
    and first: "cur_codepage cf = None \<longrightarrow> k = 0"
    and cur: "\<forall>c. cur_codepage cf = Some c \<longrightarrow> c \<in> set cands \<and> c \<noteq> []"
  shows "\<exists>frs' cf' c'. autoStep fuel defs al s cands (frs, cf) i = Some (Inr (frs', cf')) \<and>
           sum_list (map (\<lambda>f. length (bytes f)) frs') + length (chars cf') = Suc k \<and>
           cur_codepage cf' = Some c' \<and> c' \<in> set cands \<and> c' \<noteq> []"
proof -
  obtain found where found: "scanCandidates fuel defs al cands (codePointAt s i) = Some (Inr found)"
    and mem: "\<forall>c pos. found = Some (c, pos) \<longrightarrow> c \<in> set cands"
    using scanCandidates_total [OF tot] by blast
  obtain first rest where cs: "cands = first # rest" and fne: "first \<noteq> []"
    using ne by (cases cands) auto
  show ?thesis
  proof (cases "cur_codepage cf")
    case None
    then have k0: "chars cf = []" "sum_list (map (\<lambda>f. length (bytes f)) frs) = 0"
      using cnt first by auto
    have "autoStep fuel defs al s cands (frs, cf) i = 
      (let (availableCodepage, char) =
            (case found of
               Some (candidate, position) \<Rightarrow>
                 if candidate \<noteq> [] then (Some candidate, position)
                 else (Some first, 0x3F)
             | None \<Rightarrow> (Some first, 0x3F))
       in Some (Inr (frs, \<lparr>cur_codepage = availableCodepage, chars = [char]\<rparr>)))"
      using None cs autoStep_scan [OF disjI1 [OF None] found, of frs]
      by (simp add: truthy_def split: option.splits prod.splits)
    then show ?thesis
      using k0 cnt mem cs fne None
      by (auto split: option.splits if_splits)
  next
    case (Some c0)
    then have c0: "c0 \<in> set cands" "c0 \<noteq> []" using cur by auto
    then obtain e where e: "getEncoding fuel defs al c0 = Some (Inr e)" using tot by auto
    show ?thesis
    proof (cases "findIndex (\<lambda>x. x = codePointAt s i) (codepoints e)")
      case (Some pos)
      show ?thesis
        using autoStep_sticky [OF \<open>cur_codepage cf = Some c0\<close> c0(2) e Some, of cands frs] cnt c0
          \<open>cur_codepage cf = Some c0\<close>
        by auto
    next
      case None
      have pre: "cur_codepage cf = None \<or> cur_codepage cf = Some [] \<or>
           (\<exists>cur e. cur_codepage cf = Some cur \<and> getEncoding fuel defs al cur = Some (Inr e) \<and>
              findIndex (\<lambda>x. x = codePointAt s i) (codepoints e) = None)"
        using \<open>cur_codepage cf = Some c0\<close> e None by blast
      have "autoStep fuel defs al s cands (frs, cf) i =
        (let (availableCodepage, char) =
            (case found of
               Some (candidate, position) \<Rightarrow>
                 if candidate \<noteq> [] then (Some candidate, position)
                 else (Some c0, 0x3F)
             | None \<Rightarrow> (Some c0, 0x3F));
          (fragments', cf') =
            (if Some c0 \<noteq> availableCodepage then
               (frs @ [\<lparr>codepage = c0, bytes = map of_nat (chars cf)\<rparr>],
                \<lparr>cur_codepage = availableCodepage, chars = []\<rparr>)
             else (frs, cf))
         in Some (Inr (fragments', cf'\<lparr>chars := chars cf' @ [char]\<rparr>)))"
        using \<open>cur_codepage cf = Some c0\<close> c0(2) autoStep_scan [OF pre found, of frs]
        by (simp add: truthy_def split: option.splits prod.splits)
      then show ?thesis
        using cnt mem c0 \<open>cur_codepage cf = Some c0\<close>
        by (auto split: option.splits if_splits)
    qed
  qed
qed

lemma autoLoop_counts:
  assumes tot: "\<forall>c\<in>set cands. \<exists>e. getEncoding fuel defs al c = Some (Inr e)"
    and ne: "cands \<noteq> []" "hd cands \<noteq> []"
    and cnt: "sum_list (map (\<lambda>f. length (bytes f)) frs) + length (chars cf) = k"
    and first: "cur_codepage cf = None \<longrightarrow> k = 0"
    and cur: "\<forall>c. cur_codepage cf = Some c \<longrightarrow> c \<in> set cands \<and> c \<noteq> []"
  shows "\<exists>frs' cf'. autoLoop fuel defs al s cands idxs (frs, cf) = Some (Inr (frs', cf')) \<and>
           sum_list (map (\<lambda>f. length (bytes f)) frs') + length (chars cf') = k + length idxs \<and>
           (cur_codepage cf' = None \<longrightarrow> k + length idxs = 0) \<and>
           (\<forall>c. cur_codepage cf' = Some c \<longrightarrow> c \<in> set cands \<and> c \<noteq> [])"
  using cnt first cur
proof (induction idxs arbitrary: frs cf k)
  case Nil
  then show ?case by simp
next
  case (Cons i idxs)
  obtain frs1 cf1 c1 where step: "autoStep fuel defs al s cands (frs, cf) i = Some (Inr (frs1, cf1))"
    and cnt1: "sum_list (map (\<lambda>f. length (bytes f)) frs1) + length (chars cf1) = Suc k"
    and cur1: "cur_codepage cf1 = Some c1" "c1 \<in> set cands" "c1 \<noteq> []"
    using autoStep_counts [OF tot ne Cons.prems] by blast
  have "\<exists>frs' cf'. autoLoop fuel defs al s cands idxs (frs1, cf1) = Some (Inr (frs', cf')) \<and>
           sum_list (map (\<lambda>f. length (bytes f)) frs') + length (chars cf') = Suc k + length idxs \<and>
           (cur_codepage cf' = None \<longrightarrow> Suc k + length idxs = 0) \<and>
           (\<forall>c. cur_codepage cf' = Some c \<longrightarrow> c \<in> set cands \<and> c \<noteq> [])"
    using cur1 by (intro Cons.IH [OF cnt1]) simp_all
  then show ?case using step by simp
qed

lemma autoEncode_counts:
  assumes tot: "\<forall>c\<in>set cands. \<exists>e. getEncoding fuel defs al c = Some (Inr e)"
    and ne: "cands \<noteq> []" "hd cands \<noteq> []"
  shows "\<exists>frags. autoEncode fuel defs al s cands = Some (Inr frags) \<and>
           sum_list (map (\<lambda>f. length (bytes f)) frags) = length s"
proof -
  obtain frs cf where loop: "autoLoop fuel defs al s cands [0..<length s]
                ([], \<lparr>cur_codepage = None, chars = []\<rparr>) = Some (Inr (frs, cf))"
    and cnt: "sum_list (map (\<lambda>f. length (bytes f)) frs) + length (chars cf) = length s"
    and none: "cur_codepage cf = None \<longrightarrow> length s = 0"
    and cur: "\<forall>c. cur_codepage cf = Some c \<longrightarrow> c \<in> set cands \<and> c \<noteq> []"
    using autoLoop_counts [OF tot ne, of "[]" "\<lparr>cur_codepage = None, chars = []\<rparr>" 0 s "[0..<length s]"]
    by auto
  show ?thesis
    using cnt none cur
    by (cases "cur_codepage cf") (auto simp: autoEncode_def loop)
qed


lemma autoStep_scanned:
  assumes "autoStep fuel defs al s cands (frs, cf) i = Some (Inr r)"
    and "cur_codepage cf = None \<or> cur_codepage cf = Some [] \<or>
           (\<exists>cur e. cur_codepage cf = Some cur \<and> getEncoding fuel defs al cur = Some (Inr e) \<and>
              findIndex (\<lambda>x. x = codePointAt s i) (codepoints e) = None)"
  shows "\<exists>found. scanCandidates fuel defs al cands (codePointAt s i) = Some (Inr found)"
proof (cases "scanCandidates fuel defs al cands (codePointAt s i)")
  case None
  then have "autoStep fuel defs al s cands (frs, cf) i = None"
    using assms(2) by (auto simp: autoStep_unfold truthy_def)
  then show ?thesis using assms(1) by simp
next
  case (Some x)
  show ?thesis
  proof (cases x)
    case (Inl err)
    then have "autoStep fuel defs al s cands (frs, cf) i = Some (Inl err)"
      using assms(2) Some by (auto simp: autoStep_unfold truthy_def)
    then show ?thesis using assms(1) by simp
  next
    case (Inr found)
    then show ?thesis using Some by simp
  qed
qed

lemma autoStep_cases:
  assumes "autoStep fuel defs al s cands (frs, cf) i = Some (Inr r)"
  shows "(\<exists>cur e pos. cur_codepage cf = Some cur \<and> cur \<noteq> [] \<and>
            getEncoding fuel defs al cur = Some (Inr e) \<and>
            findIndex (\<lambda>x. x = codePointAt s i) (codepoints e) = Some pos) \<or>
         ((cur_codepage cf = None \<or> cur_codepage cf = Some [] \<or>
           (\<exists>cur e. cur_codepage cf = Some cur \<and> getEncoding fuel defs al cur = Some (Inr e) \<and>
              findIndex (\<lambda>x. x = codePointAt s i) (codepoints e) = None)) \<and>
          (\<exists>found. scanCandidates fuel defs al cands (codePointAt s i) = Some (Inr found)))"
proof -
  have pre: "(\<exists>cur e pos. cur_codepage cf = Some cur \<and> cur \<noteq> [] \<and>
            getEncoding fuel defs al cur = Some (Inr e) \<and>
            findIndex (\<lambda>x. x = codePointAt s i) (codepoints e) = Some pos) \<or>
         (cur_codepage cf = None \<or> cur_codepage cf = Some [] \<or>
           (\<exists>cur e. cur_codepage cf = Some cur \<and> getEncoding fuel defs al cur = Some (Inr e) \<and>
              findIndex (\<lambda>x. x = codePointAt s i) (codepoints e) = None))"
  proof (cases "cur_codepage cf")
    case None
    then show ?thesis by simp
  next
    case (Some cur)
    show ?thesis
    proof (cases "cur = []")
      case True
      then show ?thesis using Some by simp
    next
      case False
      show ?thesis
      proof (cases "getEncoding fuel defs al cur")
        case None
        then have "autoStep fuel defs al s cands (frs, cf) i = None"
          using Some False by (simp add: autoStep_unfold)
        then show ?thesis using assms by simp
      next
        case (Some x)
        show ?thesis
        proof (cases x)
          case (Inl err)
          then have "autoStep fuel defs al s cands (frs, cf) i = Some (Inl err)"
            using Some \<open>cur_codepage cf = Some cur\<close> False by (simp add: autoStep_unfold)
          then show ?thesis using assms by simp
        next
          case (Inr e)
          then show ?thesis
            using Some \<open>cur_codepage cf = Some cur\<close> False
            by (cases "findIndex (\<lambda>x. x = codePointAt s i) (codepoints e)") auto
        qed
      qed
    qed
  qed
  then show ?thesis using autoStep_scanned [OF assms] by blast
qed

lemma autoStep_head:
  assumes "autoStep fuel defs al s cands (frs, cf) i = Some (Inr (frs', cf'))"
    and "cur_codepage cf = Some [] \<longrightarrow> cands \<noteq> [] \<and> hd cands = []"
  shows "cur_codepage cf' = Some [] \<longrightarrow> cands \<noteq> [] \<and> hd cands = []"
proof -
  consider
    (sticky) cur e pos where "cur_codepage cf = Some cur" "cur \<noteq> []"
      "getEncoding fuel defs al cur = Some (Inr e)"
      "findIndex (\<lambda>x. x = codePointAt s i) (codepoints e) = Some pos"
  | (scan) found where "cur_codepage cf = None \<or> cur_codepage cf = Some [] \<or>
           (\<exists>cur e. cur_codepage cf = Some cur \<and> getEncoding fuel defs al cur = Some (Inr e) \<and>
              findIndex (\<lambda>x. x = codePointAt s i) (codepoints e) = None)"
      "scanCandidates fuel defs al cands (codePointAt s i) = Some (Inr found)"
    using autoStep_cases [OF assms(1)] by blast
  then show ?thesis
  proof cases
    case sticky
    show ?thesis
      using autoStep_sticky [OF sticky, of cands frs] assms(1) sticky(1,2) by auto
  next
    case scan
    show ?thesis
      using autoStep_scan [OF scan, of frs] assms
      by (auto simp: truthy_def Let_def split: option.splits if_splits prod.splits list.splits)
  qed
qed

lemma autoLoop_head:
  assumes "autoLoop fuel defs al s cands idxs st = Some (Inr st')"
    and "cur_codepage (snd st) = Some [] \<longrightarrow> cands \<noteq> [] \<and> hd cands = []"
  shows "cur_codepage (snd st') = Some [] \<longrightarrow> cands \<noteq> [] \<and> hd cands = []"
  using assms
proof (induction idxs arbitrary: st)
  case Nil
  then show ?case by simp
next
  case (Cons i idxs)
  from Cons.prems(1) obtain st1 where s1: "autoStep fuel defs al s cands st i = Some (Inr st1)"
    and l1: "autoLoop fuel defs al s cands idxs st1 = Some (Inr st')"
    by (auto simp: andThen_Inr_iff)
  have "cur_codepage (snd st1) = Some [] \<longrightarrow> cands \<noteq> [] \<and> hd cands = []"
    using autoStep_head [of fuel defs al s cands "fst st" "snd st" i "fst st1" "snd st1"] s1 Cons.prems(2)
    by simp
  then show ?case using Cons.IH [OF l1] by simp
qed

lemma autoStep_sticky_empty:
  assumes "cur_codepage cf = Some []" and "cands = [] # rest"
    and "getEncoding fuel defs al [] = Some (Inr e)"
    and "findIndex (\<lambda>i. i = codePointAt s c) (codepoints e) = Some pos"
  shows "autoStep fuel defs al s cands (frs, cf) c = Some (Inr (frs, cf\<lparr>chars := chars cf @ [0x3F]\<rparr>))"
  using assms by (simp add: autoStep_unfold truthy_def)

lemma autoStep_no_candidates:
  "autoStep fuel defs al s [] (frs, \<lparr>cur_codepage = None, chars = cs\<rparr>) c =
     Some (Inr (frs, \<lparr>cur_codepage = None, chars = cs @ [0x3F]\<rparr>))"
  by (simp add: autoStep_unfold truthy_def)

lemma autoLoop_no_candidates:
  "autoLoop fuel defs al s [] idxs (frs, \<lparr>cur_codepage = None, chars = cs\<rparr>) =
     Some (Inr (frs, \<lparr>cur_codepage = None, chars = cs @ replicate (length idxs) 0x3F\<rparr>))"
proof (induction idxs arbitrary: cs)
  case Nil
  then show ?case by simp
next
  case (Cons i idxs)
  show ?case
    by (simp add: autoStep_no_candidates Cons.IH replicate_app_Cons_same)
qed

section \<open>Facts about the encoder\<close>

lemma unit_count: "length s = codePointCount s + astralCount s"
  unfolding codePointCount_def astralCount_def
proof (induction s rule: codePointsOf.induct)
  case 1
  then show ?case by simp
next
  case (2 u)
  have "unat u < 2 ^ LENGTH(16)" by (rule unsigned_less)
  then have "unat u < 65536" by simp
  then show ?case by simp
next
  case (3 u v rest)
  have "unat u < 2 ^ LENGTH(16)" by (rule unsigned_less)
  then have "unat u < 65536" by simp
  then show ?case using 3 by auto
qed

lemma encode_returns:
  "getEncoding fuel defs al p = Some (Inr e) \<Longrightarrow>
   encode fuel defs al s p =
     Some (Inr (map (\<lambda>c. case findIndex (\<lambda>i. i = codePointAt s c) (codepoints e) of
                              Some position \<Rightarrow> of_nat position
                            | None \<Rightarrow> 0x3F)
                      [0..<length s]))"
  by (simp add: encode_def)

section \<open>Facts about the store\<close>

lemma same_below_refl: "n \<le> length h \<Longrightarrow> same_below n h h"
  by (simp add: same_below_def)

lemma same_below_trans:
  "same_below n h h1 \<Longrightarrow> same_below m h1 h2 \<Longrightarrow> n \<le> m \<Longrightarrow> same_below n h h2"
  by (auto simp: same_below_def)

lemma same_below_alloc: "same_below (length h) h (h @ [c])"
  by (simp add: same_below_def nth_append)

lemma same_below_reads:
  assumes "same_below n h h'" and "a < n"
  shows "numbersAt h' a = numbersAt h a" and "stringsAt h' a = stringsAt h a"
    and "slotsAt h' a = slotsAt h a" and "objectAt h' a = objectAt h a"
  using assms by (auto simp: same_below_def numbersAt_def stringsAt_def slotsAt_def objectAt_def)

lemma same_below_update:
  "n \<le> ca \<Longrightarrow> n \<le> length h \<Longrightarrow> same_below n h (h[ca := c])"
  by (simp add: same_below_def)

lemma absSlots_same:
  assumes "same_below n h h'" and "\<forall>r. HRow r \<in> set xs \<longrightarrow> r < n"
  shows "map (absSlot h') xs = map (absSlot h) xs"
proof (rule map_cong [OF refl])
  fix x assume x: "x \<in> set xs"
  show "absSlot h' x = absSlot h x"
  proof (cases x)
    case (HRow r)
    then have "r < n" using x assms(2) by auto
    then show ?thesis using HRow same_below_reads(1) [OF assms(1)] by (simp add: absSlot_def)
  qed (simp_all add: absSlot_def)
qed

lemma registry_in_same:
  assumes "registry_in n h reg" and "same_below n h h'"
  shows "registry_in n h' reg" and "absRegistry h' reg = absRegistry h reg"
proof -
  have len: "n \<le> length h'" using assms(2) by (simp add: same_below_def)
  have nth: "\<And>a. a < n \<Longrightarrow> h' ! a = h ! a" using assms(2) by (simp add: same_below_def)
  show "registry_in n h' reg"
    unfolding registry_in_def
  proof (intro conjI allI impI)
    show "n \<le> length h'" by (rule len)
  next
    fix cp da assume r: "reg cp = Some da"
    then show "da < n" using assms(1) by (auto simp: registry_in_def)
    obtain d where d: "h ! da = Object d" "da < n"
      and l: "\<forall>la. h_languages d = Some la \<longrightarrow> la < n"
      and v: "\<forall>va. h_value d = Some va \<longrightarrow> va < n \<and> (\<forall>r. HRow r \<in> set (slotsAt h va) \<longrightarrow> r < n)"
      using assms(1) r unfolding registry_in_def by blast
    have "h' ! da = Object d" using d nth by simp
    moreover have "\<forall>va. h_value d = Some va \<longrightarrow> va < n \<and> (\<forall>r. HRow r \<in> set (slotsAt h' va) \<longrightarrow> r < n)"
      using v same_below_reads(3) [OF assms(2)] by auto
    ultimately show "\<exists>d. h' ! da = Object d \<and>
            (\<forall>la. h_languages d = Some la \<longrightarrow> la < n) \<and>
            (\<forall>va. h_value d = Some va \<longrightarrow>
               va < n \<and> (\<forall>r. HRow r \<in> set (slotsAt h' va) \<longrightarrow> r < n))"
      using l by blast
  qed
  show "absRegistry h' reg = absRegistry h reg"
  proof (rule ext)
    fix cp
    show "absRegistry h' reg cp = absRegistry h reg cp"
    proof (cases "reg cp")
      case None
      then show ?thesis by (simp add: absRegistry_def)
    next
      case (Some da)
      obtain d where d: "h ! da = Object d" "da < n"
        and l: "\<forall>la. h_languages d = Some la \<longrightarrow> la < n"
        and v: "\<forall>va. h_value d = Some va \<longrightarrow> va < n \<and> (\<forall>r. HRow r \<in> set (slotsAt h va) \<longrightarrow> r < n)"
        using assms(1) Some unfolding registry_in_def by blast
      have o: "objectAt h da = Some d" "objectAt h' da = Some d"
        using d nth len assms(1) by (auto simp: objectAt_def registry_in_def)
      have "absCodepage h' d = absCodepage h d"
      proof -
        have "map_option (stringsAt h') (h_languages d) = map_option (stringsAt h) (h_languages d)"
          using l same_below_reads(2) [OF assms(2)] by (cases "h_languages d") auto
        moreover have "map_option (\<lambda>va. map (absSlot h') (slotsAt h' va)) (h_value d) =
                       map_option (\<lambda>va. map (absSlot h) (slotsAt h va)) (h_value d)"
        proof (cases "h_value d")
          case None
          then show ?thesis by simp
        next
          case (Some va)
          then have "va < n" "\<forall>r. HRow r \<in> set (slotsAt h va) \<longrightarrow> r < n" using v by auto
          then show ?thesis
            using Some same_below_reads(3) [OF assms(2), of va] absSlots_same [OF assms(2), of "slotsAt h va"]
            by simp
        qed
        ultimately show ?thesis by (simp add: absCodepage_def)
      qed
      then show ?thesis using Some o by (simp add: absRegistry_def)
    qed
  qed
qed

lemma cloneSlotList_spec:
  assumes "cloneSlotList h xs = (ys, h')" and "\<forall>r. HRow r \<in> set xs \<longrightarrow> r < length h"
  shows "same_below (length h) h h' \<and> map (absSlot h') ys = map (absSlot h) xs \<and>
         (\<forall>r. HRow r \<in> set ys \<longrightarrow> length h \<le> r \<and> r < length h')"
  using assms
proof (induction h xs arbitrary: ys h' rule: cloneSlotList.induct)
  case (1 h)
  then show ?case by (simp add: same_below_refl)
next
  case (2 h r xs)
  let ?h1 = "h @ [Numbers (numbersAt h r)]"
  obtain ys0 where c: "cloneSlotList ?h1 xs = (ys0, h')" and ys: "ys = HRow (length h) # ys0"
    using "2.prems"(1) by (auto simp: alloc_def split: prod.splits)
  have rows: "\<forall>r. HRow r \<in> set xs \<longrightarrow> r < length ?h1" using "2.prems"(2) by auto
  have IH: "same_below (length ?h1) ?h1 h' \<and> map (absSlot h') ys0 = map (absSlot ?h1) xs \<and>
         (\<forall>r. HRow r \<in> set ys0 \<longrightarrow> length ?h1 \<le> r \<and> r < length h')"
    using "2.IH" [of "(length h, ?h1)" "length h" ?h1 ys0 h'] c rows by (simp add: alloc_def)
  have s1: "same_below (length h) h ?h1" by (rule same_below_alloc)
  have s: "same_below (length h) h h'" using same_below_trans [OF s1 _, of "length ?h1" h'] IH by simp
  have "map (absSlot ?h1) xs = map (absSlot h) xs"
    using absSlots_same [OF s1, of xs] "2.prems"(2) by simp
  moreover have "numbersAt h' (length h) = numbersAt h r"
  proof -
    have "numbersAt h' (length h) = numbersAt ?h1 (length h)"
      using same_below_reads(1) [of "length ?h1" ?h1 h' "length h"] IH by simp
    then show ?thesis by (simp add: numbersAt_def)
  qed
  moreover have "length ?h1 \<le> length h'" using IH by (simp add: same_below_def)
  ultimately have m: "map (absSlot h') ys = map (absSlot h) (HRow r # xs)"
    and b: "length h < length h'"
    using IH ys by (simp_all add: absSlot_def)
  have "\<forall>r. HRow r \<in> set ys \<longrightarrow> length h \<le> r \<and> r < length h'"
    using IH ys b by auto
  then show ?case using s m by simp
qed (auto split: prod.splits simp: absSlot_def)

lemma structuredClone_spec:
  assumes "structuredClone h d = (c, h1)"
    and "\<forall>la. h_languages d = Some la \<longrightarrow> la < length h"
    and "\<forall>va. h_value d = Some va \<longrightarrow> va < length h \<and> (\<forall>r. HRow r \<in> set (slotsAt h va) \<longrightarrow> r < length h)"
  shows "same_below (length h) h h1" and "absCodepage h1 c = absCodepage h d"
    and "\<forall>la. h_languages c = Some la \<longrightarrow> length h \<le> la \<and> la < length h1"
    and "\<forall>va. h_value c = Some va \<longrightarrow> length h \<le> va \<and> va < length h1 \<and>
            (\<forall>r. HRow r \<in> set (slotsAt h1 va) \<longrightarrow> length h \<le> r \<and> r < length h1)"
proof -
  define l where "l = (case h_languages d of None \<Rightarrow> None | Some la \<Rightarrow> Some (length h))"
  define h0 where "h0 = (case h_languages d of None \<Rightarrow> h | Some la \<Rightarrow> h @ [Strings (stringsAt h la)])"
  have lang: "(case h_languages d of
                        None \<Rightarrow> (None, h)
                      | Some la \<Rightarrow> (let (la', h') = alloc h (Strings (stringsAt h la)) in (Some la', h')))
              = (l, h0)"
    by (simp add: l_def h0_def alloc_def split: option.splits)
  have s0: "same_below (length h) h h0"
    by (auto simp: h0_def same_below_refl same_below_alloc split: option.splits)
  have len0: "length h \<le> length h0" using s0 by (simp add: same_below_def)
  have labs: "map_option (stringsAt h0) l = map_option (stringsAt h) (h_languages d)"
    by (auto simp: l_def h0_def stringsAt_def split: option.splits)
  have main: "same_below (length h) h h1 \<and> absCodepage h1 c = absCodepage h d \<and>
      (\<forall>la. h_languages c = Some la \<longrightarrow> length h \<le> la \<and> la < length h1) \<and>
      (\<forall>va. h_value c = Some va \<longrightarrow> length h \<le> va \<and> va < length h1 \<and>
            (\<forall>r. HRow r \<in> set (slotsAt h1 va) \<longrightarrow> length h \<le> r \<and> r < length h1))"
  proof (cases "h_value d")
    case None
    then have c: "c = d\<lparr>h_languages := l, h_value := None\<rparr>" and h1: "h1 = h0"
      using assms(1) lang by (simp_all add: structuredClone_def)
    show "same_below (length h) h h1 \<and> absCodepage h1 c = absCodepage h d \<and>
      (\<forall>la. h_languages c = Some la \<longrightarrow> length h \<le> la \<and> la < length h1) \<and>
      (\<forall>va. h_value c = Some va \<longrightarrow> length h \<le> va \<and> va < length h1 \<and>
            (\<forall>r. HRow r \<in> set (slotsAt h1 va) \<longrightarrow> length h \<le> r \<and> r < length h1))"
      using s0 labs None
      by (auto simp: c h1 absCodepage_def l_def h0_def split: option.splits)
  next
    case (Some va)
    then have va: "va < length h" and rows: "\<forall>r. HRow r \<in> set (slotsAt h va) \<longrightarrow> r < length h"
      using assms(3) by auto
    obtain ys h' where cl: "cloneSlotList h0 (slotsAt h0 va) = (ys, h')"
      by (cases "cloneSlotList h0 (slotsAt h0 va)") auto
    have sl: "slotsAt h0 va = slotsAt h va" using same_below_reads(3) [OF s0 va] .
    have rows0: "\<forall>r. HRow r \<in> set (slotsAt h0 va) \<longrightarrow> r < length h0" using rows sl len0 by auto
    have sp: "same_below (length h0) h0 h'" "map (absSlot h') ys = map (absSlot h0) (slotsAt h0 va)"
      "\<forall>r. HRow r \<in> set ys \<longrightarrow> length h0 \<le> r \<and> r < length h'"
      using cloneSlotList_spec [OF cl rows0] by auto
    have c: "c = d\<lparr>h_languages := l, h_value := Some (length h')\<rparr>" and h1: "h1 = h' @ [Slots ys]"
      using assms(1) lang Some cl by (simp_all add: structuredClone_def alloc_def)
    have len': "length h0 \<le> length h'" using sp(1) by (simp add: same_below_def)
    have s1: "same_below (length h) h h1"
      using same_below_trans [OF same_below_trans [OF s0 sp(1) len0] same_below_alloc [of h' "Slots ys"]]
        len0 len' by (simp add: h1)
    have s01: "same_below (length h0) h0 h1"
      using same_below_trans [OF sp(1) same_below_alloc [of h' "Slots ys"] len'] by (simp add: h1)
    have s'1: "same_below (length h') h' h1" unfolding h1 by (rule same_below_alloc)
    have abs1: "map (absSlot h1) ys = map (absSlot h') ys"
      using absSlots_same [OF s'1, of ys] sp(3) by simp
    have abs0: "map (absSlot h0) (slotsAt h va) = map (absSlot h) (slotsAt h va)"
      using absSlots_same [OF s0, of "slotsAt h va"] rows by simp
    have sl1: "slotsAt h1 (length h') = ys" by (simp add: h1 slotsAt_def)
    have lg: "map_option (stringsAt h1) l = map_option (stringsAt h) (h_languages d)"
    proof (cases "h_languages d")
      case None
      then show ?thesis by (simp add: l_def)
    next
      case (Some la)
      have "length h < length h0" using Some by (simp add: h0_def)
      then have "stringsAt h1 (length h) = stringsAt h0 (length h)"
        using same_below_reads(2) [OF s01] by simp
      then show ?thesis using Some labs by (simp add: l_def)
    qed
    have lb: "\<forall>la. l = Some la \<longrightarrow> length h \<le> la \<and> la < length h1"
      using len' by (auto simp: l_def h1 h0_def split: option.splits)
    show "same_below (length h) h h1 \<and> absCodepage h1 c = absCodepage h d \<and>
      (\<forall>la. h_languages c = Some la \<longrightarrow> length h \<le> la \<and> la < length h1) \<and>
      (\<forall>va. h_value c = Some va \<longrightarrow> length h \<le> va \<and> va < length h1 \<and>
            (\<forall>r. HRow r \<in> set (slotsAt h1 va) \<longrightarrow> length h \<le> r \<and> r < length h1))"
    proof (intro conjI)
      show "same_below (length h) h h1" by (rule s1)
      show "absCodepage h1 c = absCodepage h d"
        using lg Some sl1 abs1 sp(2) sl abs0 by (simp add: c absCodepage_def)
      show "\<forall>la. h_languages c = Some la \<longrightarrow> length h \<le> la \<and> la < length h1"
        using lb by (simp add: c)
      show "\<forall>va. h_value c = Some va \<longrightarrow> length h \<le> va \<and> va < length h1 \<and>
            (\<forall>r. HRow r \<in> set (slotsAt h1 va) \<longrightarrow> length h \<le> r \<and> r < length h1)"
        using sp(3) len0 len' sl1 by (auto simp: c h1)
    qed
  qed
  show "same_below (length h) h h1" and "absCodepage h1 c = absCodepage h d"
    and "\<forall>la. h_languages c = Some la \<longrightarrow> length h \<le> la \<and> la < length h1"
    and "\<forall>va. h_value c = Some va \<longrightarrow> length h \<le> va \<and> va < length h1 \<and>
            (\<forall>r. HRow r \<in> set (slotsAt h1 va) \<longrightarrow> length h \<le> r \<and> r < length h1)"
    using main by blast+
qed

lemma reads_update:
  "va \<noteq> ca \<Longrightarrow> slotsAt (h[ca := c]) va = slotsAt h va"
  "r \<noteq> ca \<Longrightarrow> numbersAt (h[ca := c]) r = numbersAt h r"
  "ca < length h \<Longrightarrow> numbersAt (h[ca := Numbers xs]) ca = xs"
  by (simp_all add: slotsAt_def numbersAt_def)

lemma fold_writes_store:
  assumes "ca < length h" and "h ! ca = Numbers xs"
    and "\<And>j c. w j (h[ca := Numbers c]) = w j h"
  shows "fold (\<lambda>j h. case w j h of None \<Rightarrow> h | Some x \<Rightarrow> writeAt h ca (b + j) x) [0..<n] h =
         h[ca := Numbers (fold (\<lambda>j acc. case w j h of None \<Rightarrow> acc | Some x \<Rightarrow> js_set acc (b + j) x)
                               [0..<n] xs)]"
proof (induction n)
  case 0
  have "h[ca := Numbers xs] = h" using assms(1,2) by (metis list_update_id)
  then show ?case by simp
next
  case (Suc n)
  let ?acc = "fold (\<lambda>j acc. case w j h of None \<Rightarrow> acc | Some x \<Rightarrow> js_set acc (b + j) x) [0..<n] xs"
  show ?case
  proof (cases "w n h")
    case None
    then show ?thesis using Suc.IH assms(3) by simp
  next
    case (Some x)
    have "writeAt (h[ca := Numbers ?acc]) ca (b + n) x = h[ca := Numbers (js_set ?acc (b + n) x)]"
      using assms(1) by (simp add: writeAt_def reads_update)
    then show ?thesis using Suc.IH assms(3) Some by simp
  qed
qed

lemma overlayRowH_eq:
  assumes "ca < length h" and "h ! ca = Numbers xs" and "va \<noteq> ca"
    and "slotsAt h va ! i = HRow r" and "r \<noteq> ca"
  shows "overlayRowH va ca i h = h[ca := Numbers (overlayRow i (numbersAt h r) xs)]"
proof -
  define w where "w j h = (case slotsAt h va ! i of HRow r \<Rightarrow> js_get (numbersAt h r) j | _ \<Rightarrow> None)"
    for j :: nat and h
  have f: "(\<lambda>j h. case slotsAt h va ! i of
                    HRow r \<Rightarrow> (case js_get (numbersAt h r) j of
                                 None \<Rightarrow> h
                               | Some subsubvalue \<Rightarrow> writeAt h ca (i * 16 + j) subsubvalue)
                  | _ \<Rightarrow> h) =
           (\<lambda>j h. case w j h of None \<Rightarrow> h | Some x \<Rightarrow> writeAt h ca (i * 16 + j) x)"
    by (intro ext) (simp add: w_def split: hslot.splits)
  have inv: "\<And>j c. w j (h[ca := Numbers c]) = w j h"
    using assms(3-5) by (simp add: w_def reads_update)
  have wh: "\<And>j. w j h = js_get (numbersAt h r) j" using assms(4) by (simp add: w_def)
  show ?thesis
    unfolding overlayRowH_def overlayRow_def f
    by (simp add: fold_writes_store [OF assms(1,2) inv] wh)
qed

lemma overlaySparseH_eq:
  assumes "ca < length h" and "h ! ca = Numbers xs" and "va \<noteq> ca"
    and "\<forall>r. HRow r \<in> set (slotsAt h va) \<longrightarrow> r \<noteq> ca" and "length (slotsAt h va) = 16"
  shows "overlaySparseH va ca h =
           h[ca := Numbers (overlaySparse (map (absSlot h) (slotsAt h va)) xs)]"
proof -
  define v where "v = map (absSlot h) (slotsAt h va)"
  have step: "n \<le> 16 \<Longrightarrow>
     fold (\<lambda>i h. case slotsAt h va ! i of HRow r \<Rightarrow> overlayRowH va ca i h | _ \<Rightarrow> h) [0..<n] h =
     h[ca := Numbers (fold (\<lambda>i acc. case v ! i of Row subvalue \<Rightarrow> overlayRow i subvalue acc | _ \<Rightarrow> acc)
                           [0..<n] xs)]" for n
  proof (induction n)
    case 0
    have "h[ca := Numbers xs] = h" using assms(1,2) by (metis list_update_id)
    then show ?case by simp
  next
    case (Suc n)
    let ?acc = "fold (\<lambda>i acc. case v ! i of Row subvalue \<Rightarrow> overlayRow i subvalue acc | _ \<Rightarrow> acc) [0..<n] xs"
    let ?H = "h[ca := Numbers ?acc]"
    have IH: "fold (\<lambda>i h. case slotsAt h va ! i of HRow r \<Rightarrow> overlayRowH va ca i h | _ \<Rightarrow> h) [0..<n] h = ?H"
      using Suc by simp
    have n: "n < length (slotsAt h va)" using Suc.prems assms(5) by simp
    have vn: "v ! n = absSlot h (slotsAt h va ! n)" using n by (simp add: v_def)
    have sl: "slotsAt ?H va = slotsAt h va" using assms(3) by (simp add: reads_update)
    show ?case
    proof (cases "slotsAt h va ! n")
      case (HRow r)
      have "HRow r \<in> set (slotsAt h va)" using n HRow by (metis nth_mem)
      then have r: "r \<noteq> ca" using assms(4) by simp
      have "overlayRowH va ca n ?H = ?H[ca := Numbers (overlayRow n (numbersAt ?H r) ?acc)]"
        using assms(1) by (intro overlayRowH_eq) (simp_all add: assms(3) sl HRow r)
      then have "overlayRowH va ca n ?H = h[ca := Numbers (overlayRow n (numbersAt h r) ?acc)]"
        using r by (simp add: reads_update)
      moreover have "v ! n = Row (numbersAt h r)" using vn HRow by (simp add: absSlot_def)
      ultimately show ?thesis using IH sl HRow by simp
    next
      case HHole
      moreover have "v ! n = Hole" using vn HHole by (simp add: absSlot_def)
      ultimately show ?thesis using IH sl by simp
    next
      case (HNum x)
      moreover have "v ! n = Num x" using vn HNum by (simp add: absSlot_def)
      ultimately show ?thesis using IH sl by simp
    qed
  qed
  show ?thesis unfolding overlaySparseH_def overlaySparse_def using step [of 16] by (simp add: v_def)
qed

lemma overlayDenseH_eq:
  assumes "ca < length h" and "h ! ca = Numbers xs" and "va \<noteq> ca"
  shows "overlayDenseH off va ca h =
           h[ca := Numbers (overlayDense off (map (absSlot h) (slotsAt h va)) xs)]"
proof -
  define w where "w j h = (case slotsAt h va ! j of HNum x \<Rightarrow> Some x | _ \<Rightarrow> None)"
    for j :: nat and h
  have f: "(\<lambda>i h. case slotsAt h va ! i of HNum subvalue \<Rightarrow> writeAt h ca (off + i) subvalue | _ \<Rightarrow> h) =
           (\<lambda>j h. case w j h of None \<Rightarrow> h | Some x \<Rightarrow> writeAt h ca (off + j) x)"
    by (intro ext) (simp add: w_def split: hslot.splits)
  have inv: "\<And>j c. w j (h[ca := Numbers c]) = w j h"
    using assms(3) by (simp add: w_def reads_update)
  define v where "v = map (absSlot h) (slotsAt h va)"
  have g: "fold (\<lambda>j acc. case w j h of None \<Rightarrow> acc | Some x \<Rightarrow> js_set acc (off + j) x) [0..<n] xs =
           fold (\<lambda>i acc. case v ! i of Num subvalue \<Rightarrow> js_set acc (off + i) subvalue | _ \<Rightarrow> acc) [0..<n] xs"
    if "n \<le> length (slotsAt h va)" for n
    using that
  proof (induction n)
    case 0
    then show ?case by simp
  next
    case (Suc n)
    then have "n < length (slotsAt h va)" by simp
    then have "v ! n = absSlot h (slotsAt h va ! n)" by (simp add: v_def)
    then have "(case w n h of None \<Rightarrow> acc | Some x \<Rightarrow> js_set acc (off + n) x) =
               (case v ! n of Num subvalue \<Rightarrow> js_set acc (off + n) subvalue | _ \<Rightarrow> acc)" for acc
      by (simp add: w_def absSlot_def split: hslot.splits)
    then show ?case using Suc by (simp split: slot.splits)
  qed
  have "length v = length (slotsAt h va)" by (simp add: v_def)
  then have "overlayDenseH off va ca h = h[ca := Numbers (overlayDense off v xs)]"
    unfolding overlayDenseH_def overlayDense_def f
    by (simp add: fold_writes_store [OF assms(1,2) inv] g)
  then show ?thesis by (simp add: v_def)
qed

lemma overlayValueH_eq:
  assumes "ca < length h" and "h ! ca = Numbers xs"
    and "\<forall>va. h_value d = Some va \<longrightarrow> va \<noteq> ca \<and> (\<forall>r. HRow r \<in> set (slotsAt h va) \<longrightarrow> r \<noteq> ca)"
  shows "overlayValueH d ca h = h[ca := Numbers (overlayValue (absCodepage h d) xs)]"
proof (cases "h_value d")
  case None
  have "h[ca := Numbers xs] = h" using assms(1,2) by (metis list_update_id)
  then show ?thesis using None by (simp add: overlayValueH_def overlayValue_def absCodepage_def)
next
  case (Some va)
  then have va: "va \<noteq> ca" and rows: "\<forall>r. HRow r \<in> set (slotsAt h va) \<longrightarrow> r \<noteq> ca"
    using assms(3) by auto
  show ?thesis
    using Some overlaySparseH_eq [OF assms(1,2) va rows] overlayDenseH_eq [OF assms(1,2) va]
    by (simp add: overlayValueH_def overlayValue_def absCodepage_def)
qed

lemma sim_outcome_andThen:
  assumes "sim_outcome P m mh" and "\<And>x y. P x y \<Longrightarrow> sim_outcome Q (f x) (g y)"
  shows "sim_outcome Q (andThen m f) (andThen mh g)"
proof (cases m)
  case None
  then show ?thesis using assms(1) by (simp add: sim_outcome_def andThen_def)
next
  case (Some r)
  show ?thesis
  proof (cases r)
    case (Inl e)
    then show ?thesis using assms(1) Some by (simp add: sim_outcome_def andThen_def)
  next
    case (Inr x)
    then obtain y where "mh = Some (Inr y)" "P x y"
      using assms(1) Some by (auto simp: sim_outcome_def)
    then show ?thesis using assms(2) [of x y] Some Inr by (simp add: andThen_def)
  qed
qed

lemma sim_outcome_Inr: "P x y \<Longrightarrow> sim_outcome P (Some (Inr x)) (Some (Inr y))"
  by (simp add: sim_outcome_def)

lemma absCodepage_same:
  assumes "same_below m h h'"
    and "\<forall>la. h_languages d = Some la \<longrightarrow> la < m"
    and "\<forall>va. h_value d = Some va \<longrightarrow> va < m \<and> (\<forall>r. HRow r \<in> set (slotsAt h va) \<longrightarrow> r < m)"
  shows "absCodepage h' d = absCodepage h d"
proof -
  have "map_option (stringsAt h') (h_languages d) = map_option (stringsAt h) (h_languages d)"
    using assms(2) same_below_reads(2) [OF assms(1)] by (cases "h_languages d") auto
  moreover have "map_option (\<lambda>va. map (absSlot h') (slotsAt h' va)) (h_value d) =
                 map_option (\<lambda>va. map (absSlot h) (slotsAt h va)) (h_value d)"
  proof (cases "h_value d")
    case None
    then show ?thesis by simp
  next
    case (Some va)
    then have "va < m" "\<forall>r. HRow r \<in> set (slotsAt h va) \<longrightarrow> r < m" using assms(3) by auto
    then show ?thesis
      using Some same_below_reads(3) [OF assms(1), of va] absSlots_same [OF assms(1), of "slotsAt h va"]
      by simp
  qed
  ultimately show ?thesis by (simp add: absCodepage_def)
qed

lemma absCodepage_codepoints: "absCodepage h (d\<lparr>h_codepoints := x\<rparr>) = absCodepage h d"
  by (simp add: absCodepage_def)

lemma registry_object:
  assumes "registry_in n h reg" and "reg cp = Some da"
  obtains d where "objectAt h da = Some d" and "da < n" and "n \<le> length h"
    and "\<forall>la. h_languages d = Some la \<longrightarrow> la < n"
    and "\<forall>va. h_value d = Some va \<longrightarrow> va < n \<and> (\<forall>r. HRow r \<in> set (slotsAt h va) \<longrightarrow> r < n)"
    and "absRegistry h reg cp = Some (absCodepage h d)"
proof -
  obtain d where d: "h ! da = Object d" "da < n" "n \<le> length h"
    and l: "\<forall>la. h_languages d = Some la \<longrightarrow> la < n"
    and v: "\<forall>va. h_value d = Some va \<longrightarrow> va < n \<and> (\<forall>r. HRow r \<in> set (slotsAt h va) \<longrightarrow> r < n)"
    using assms unfolding registry_in_def by blast
  have o: "objectAt h da = Some d" using d by (simp add: objectAt_def)
  show ?thesis
    by (rule that [OF o d(2,3) l v]) (simp add: absRegistry_def assms(2) o)
qed

lemma absRegistry_None: "registry_in n h reg \<Longrightarrow> absRegistry h reg cp = None \<longleftrightarrow> reg cp = None"
proof (cases "reg cp")
  case None
  then show ?thesis by (simp add: absRegistry_def)
next
  case (Some da)
  assume "registry_in n h reg"
  then obtain d where "absRegistry h reg cp = Some (absCodepage h d)"
    using Some by (rule registry_object)
  then show ?thesis using Some by simp
qed

lemma getCodepointsH_step:
  assumes reg: "registry_in n h0 reg" and sb: "same_below n h0 h"
    and IH: "\<And>cp h. same_below n h0 h \<Longrightarrow>
               sim_outcome (encR h) (getEncoding fuel (absRegistry h0 reg) al cp)
                 (getEncodingH fuel reg al cp h)"
  shows "sim_outcome (cpsR h) (getCodepoints (Suc fuel) (absRegistry h0 reg) al cp ev)
           (getCodepointsH (Suc fuel) reg al cp ev h)"
proof (cases "reg cp")
  case None
  then have "absRegistry h0 reg cp = None" by (simp add: absRegistry_def)
  then show ?thesis using None by (simp add: sim_outcome_def)
next
  case (Some da)
  have regh: "registry_in n h reg" and D: "absRegistry h reg = absRegistry h0 reg"
    using registry_in_same [OF reg sb] by auto
  from regh Some obtain d where o: "objectAt h da = Some d" and da: "da < n" and n: "n \<le> length h"
    and l: "\<forall>la. h_languages d = Some la \<longrightarrow> la < n"
    and v: "\<forall>va. h_value d = Some va \<longrightarrow> va < n \<and> (\<forall>r. HRow r \<in> set (slotsAt h va) \<longrightarrow> r < n)"
    and a: "absRegistry h reg cp = Some (absCodepage h d)"
    by (rule registry_object)
  let ?dA = "absCodepage h d"
  have ext: "extends ?dA = h_extends d" by (simp add: absCodepage_def)
  let ?baseH = "(if ev then
                    (case h_extends d of
                       None \<Rightarrow> Some (Inr (alloc h (Numbers (replicate 256 (Some 0xFFFD)))))
                     | Some parent \<Rightarrow>
                         andThen (getEncodingH fuel reg al parent h) (\<lambda>(ea, h1).
                           case objectAt h1 ea of
                             None \<Rightarrow> Some (Inl TypeError)
                           | Some e \<Rightarrow>
                               (case h_codepoints e of
                                  None \<Rightarrow> Some (Inl TypeError)
                                | Some ca \<Rightarrow> Some (Inr (ca, h1)))))
                  else Some (Inr (alloc h (Numbers (replicate 256 None)))))"
  have allocR: "cpsR h t (alloc h (Numbers t))" for t
    by (simp add: cpsR_def alloc_def same_below_alloc)
  have base: "sim_outcome (cpsR h) (baseTable fuel (absRegistry h0 reg) al ?dA ev) ?baseH"
  proof (cases ev)
    case False
    then show ?thesis by (simp add: baseTable_def sim_outcome_Inr allocR)
  next
    case True
    show ?thesis
    proof (cases "h_extends d")
      case None
      then show ?thesis using True ext by (simp add: baseTable_def sim_outcome_Inr allocR)
    next
      case (Some parent)
      have "sim_outcome (cpsR h)
              (andThen (getEncoding fuel (absRegistry h0 reg) al parent) (\<lambda>e. Some (Inr (codepoints e))))
              (andThen (getEncodingH fuel reg al parent h) (\<lambda>(ea, h1).
                           case objectAt h1 ea of
                             None \<Rightarrow> Some (Inl TypeError)
                           | Some e \<Rightarrow>
                               (case h_codepoints e of
                                  None \<Rightarrow> Some (Inl TypeError)
                                | Some ca \<Rightarrow> Some (Inr (ca, h1)))))"
      proof (rule sim_outcome_andThen [OF IH [OF sb]])
        fix e y assume r: "encR h e y"
        obtain ea h1 where y: "y = (ea, h1)" by (cases y)
        from r y obtain d1 ca xs where s: "same_below (length h) h h1" and f: "fresh_object (length h) h1 ea"
          and ab: "absEncoding h1 ea = Some e" and o1: "objectAt h1 ea = Some d1"
          and c1: "h_codepoints d1 = Some ca" and c2: "ca < length h1" and c3: "h1 ! ca = Numbers xs"
          by (auto simp: encR_def)
        have "codepoints e = xs" using ab o1 c1 c2 c3
          by (auto simp: absEncoding_def withCodepoints_def numbersAt_def)
        moreover have "length h \<le> ca" using f o1 c1 by (auto simp: fresh_object_def)
        ultimately have "cpsR h (codepoints e) (ca, h1)" using s c2 c3 by (simp add: cpsR_def)
        then show "sim_outcome (cpsR h) (Some (Inr (codepoints e)))
                (case y of (ea, h1) \<Rightarrow>
                           case objectAt h1 ea of
                             None \<Rightarrow> Some (Inl TypeError)
                           | Some e \<Rightarrow>
                               (case h_codepoints e of
                                  None \<Rightarrow> Some (Inl TypeError)
                                | Some ca \<Rightarrow> Some (Inr (ca, h1))))"
          using y o1 c1 by (simp add: sim_outcome_Inr)
      qed
      then show ?thesis using True Some ext by (simp add: baseTable_def)
    qed
  qed
  have pure: "getCodepoints (Suc fuel) (absRegistry h0 reg) al cp ev =
      andThen (baseTable fuel (absRegistry h0 reg) al ?dA ev) (\<lambda>cps. Some (Inr (overlayValue ?dA cps)))"
    using a D by (simp add: getCodepoints_Suc del: getCodepoints.simps)
  have heap: "getCodepointsH (Suc fuel) reg al cp ev h =
      andThen ?baseH (\<lambda>(ca, h1). Some (Inr (ca, overlayValueH d ca h1)))"
    using Some o by simp
  show ?thesis
    unfolding pure heap
  proof (rule sim_outcome_andThen [OF base])
    fix t y assume r: "cpsR h t y"
    obtain ca h1 where y: "y = (ca, h1)" by (cases y)
    from r y have s: "same_below (length h) h h1" and c1: "length h \<le> ca" and c2: "ca < length h1"
      and c3: "h1 ! ca = Numbers t" by (auto simp: cpsR_def)
    have sn: "same_below n h h1"
      using s n by (auto simp: same_below_def)
    have v1: "\<forall>va. h_value d = Some va \<longrightarrow> va \<noteq> ca \<and> (\<forall>r. HRow r \<in> set (slotsAt h1 va) \<longrightarrow> r \<noteq> ca)"
      using v same_below_reads(3) [OF sn] c1 n by fastforce
    have ov: "overlayValueH d ca h1 = h1[ca := Numbers (overlayValue (absCodepage h1 d) t)]"
      by (rule overlayValueH_eq [OF c2 c3 v1])
    have "absCodepage h1 d = ?dA" by (rule absCodepage_same [OF sn l v])
    then have ov': "overlayValueH d ca h1 = h1[ca := Numbers (overlayValue ?dA t)]" using ov by simp
    have "same_below (length h) h1 (h1[ca := Numbers (overlayValue ?dA t)])"
      using c1 s by (intro same_below_update) (auto simp: same_below_def)
    then have "same_below (length h) h (h1[ca := Numbers (overlayValue ?dA t)])"
      using same_below_trans [OF s _ order_refl] by blast
    then have "cpsR h (overlayValue ?dA t) (ca, overlayValueH d ca h1)"
      using c1 c2 by (simp add: cpsR_def ov')
    then show "sim_outcome (cpsR h) (Some (Inr (overlayValue ?dA t)))
                 (case y of (ca, h1) \<Rightarrow> Some (Inr (ca, overlayValueH d ca h1)))"
      using y by (simp add: sim_outcome_Inr)
  qed
qed

lemma getEncodingH_step:
  assumes reg: "registry_in n h0 reg" and sb: "same_below n h0 h"
    and IH: "\<And>cp ev h. same_below n h0 h \<Longrightarrow>
               sim_outcome (cpsR h) (getCodepoints fuel (absRegistry h0 reg) al cp ev)
                 (getCodepointsH fuel reg al cp ev h)"
  shows "sim_outcome (encR h) (getEncoding (Suc fuel) (absRegistry h0 reg) al cp)
           (getEncodingH (Suc fuel) reg al cp h)"
proof -
  let ?D = "absRegistry h0 reg"
  define cp1 where "cp1 = (case al cp of Some a \<Rightarrow> a | None \<Rightarrow> cp)"
  define cp2 where "cp2 = (if reg cp1 = None then ''ascii'' else cp1)"
  have regh: "registry_in n h reg" and D: "absRegistry h reg = ?D"
    using registry_in_same [OF reg sb] by auto
  have none: "?D c = None \<longleftrightarrow> reg c = None" for c
    using absRegistry_None [OF reg] by simp
  have rn: "resolveName ?D al cp = cp2"
    by (auto simp: resolveName_def cp1_def cp2_def none Let_def)
  have heq: "getEncodingH (Suc fuel) reg al cp h =
      (case reg cp2 of
           None \<Rightarrow> andThen (getCodepointsH fuel reg al cp2 True h) (\<lambda>r. Some (Inl TypeError))
         | Some da \<Rightarrow>
             (case objectAt h da of
                None \<Rightarrow> Some (Inl TypeError)
              | Some d \<Rightarrow>
                  (let (clone, h1) = structuredClone h d in
                   andThen (getCodepointsH fuel reg al cp2 True h1) (\<lambda>(ca, h2).
                     Some (Inr (alloc h2 (Object (clone\<lparr>h_codepoints := Some ca\<rparr>))))))))"
    unfolding cp2_def cp1_def getEncodingH.simps Let_def by (rule refl)
  show ?thesis
  proof (cases "reg cp2")
    case None
    have pure: "getEncoding (Suc fuel) ?D al cp =
        andThen (getCodepoints fuel ?D al cp2 True) (\<lambda>cps. Some (Inl TypeError))"
      using None none [of cp2] unfolding getEncoding_Suc rn by simp
    have heap: "getEncodingH (Suc fuel) reg al cp h =
        andThen (getCodepointsH fuel reg al cp2 True h) (\<lambda>r. Some (Inl TypeError))"
      unfolding heq using None by simp
    show ?thesis
      unfolding pure heap
      by (rule sim_outcome_andThen [OF IH [OF sb]]) (simp add: sim_outcome_def)
  next
    case (Some da)
    from regh Some obtain d where o: "objectAt h da = Some d" and da: "da < n" and n: "n \<le> length h"
      and l: "\<forall>la. h_languages d = Some la \<longrightarrow> la < n"
      and v: "\<forall>va. h_value d = Some va \<longrightarrow> va < n \<and> (\<forall>r. HRow r \<in> set (slotsAt h va) \<longrightarrow> r < n)"
      and a: "absRegistry h reg cp2 = Some (absCodepage h d)"
      by (rule registry_object)
    let ?dA = "absCodepage h d"
    obtain c h1 where cl: "structuredClone h d = (c, h1)" by (cases "structuredClone h d")
    have l': "\<forall>la. h_languages d = Some la \<longrightarrow> la < length h" using l n by auto
    have v': "\<forall>va. h_value d = Some va \<longrightarrow> va < length h \<and> (\<forall>r. HRow r \<in> set (slotsAt h va) \<longrightarrow> r < length h)"
      using v n by fastforce
    have s1: "same_below (length h) h h1" and ac: "absCodepage h1 c = ?dA"
      and lc: "\<forall>la. h_languages c = Some la \<longrightarrow> length h \<le> la \<and> la < length h1"
      and vc: "\<forall>va. h_value c = Some va \<longrightarrow> length h \<le> va \<and> va < length h1 \<and>
            (\<forall>r. HRow r \<in> set (slotsAt h1 va) \<longrightarrow> length h \<le> r \<and> r < length h1)"
      using structuredClone_spec [OF cl l' v'] by auto
    have len1: "length h \<le> length h1" using s1 by (simp add: same_below_def)
    have sb1: "same_below n h0 h1" using same_below_trans [OF sb s1 n] .
    have pure: "getEncoding (Suc fuel) ?D al cp =
        andThen (getCodepoints fuel ?D al cp2 True) (\<lambda>cps. Some (Inr (withCodepoints ?dA cps)))"
      using a D unfolding getEncoding_Suc rn by (simp add: withCodepoints_def)
    have heap: "getEncodingH (Suc fuel) reg al cp h =
        andThen (getCodepointsH fuel reg al cp2 True h1) (\<lambda>(ca, h2).
                     Some (Inr (alloc h2 (Object (c\<lparr>h_codepoints := Some ca\<rparr>)))))"
      unfolding heq using Some o cl by simp
    show ?thesis
      unfolding pure heap
    proof (rule sim_outcome_andThen [OF IH [OF sb1]])
      fix t y assume r: "cpsR h1 t y"
      obtain ca h2 where y: "y = (ca, h2)" by (cases y)
      from r y have s2: "same_below (length h1) h1 h2" and c1: "length h1 \<le> ca" and c2: "ca < length h2"
        and c3: "h2 ! ca = Numbers t" by (auto simp: cpsR_def)
      let ?obj = "c\<lparr>h_codepoints := Some ca\<rparr>"
      let ?h3 = "h2 @ [Object ?obj]"
      have len2: "length h1 \<le> length h2" using s2 by (simp add: same_below_def)
      have s3: "same_below (length h1) h1 ?h3"
        using same_below_trans [OF s2 same_below_alloc len2] .
      have s: "same_below (length h) h ?h3" using same_below_trans [OF s1 s3 len1] .
      have o3: "objectAt ?h3 (length h2) = Some ?obj" by (simp add: objectAt_def)
      have sl3: "va < length h1 \<Longrightarrow> slotsAt ?h3 va = slotsAt h1 va" for va
        using same_below_reads(3) [OF s3] by simp
      have fresh: "fresh_object (length h) ?h3 (length h2)"
        unfolding fresh_object_def
      proof (intro conjI exI [of _ ?obj])
        show "length h \<le> length h2" using len1 len2 by simp
        show "objectAt ?h3 (length h2) = Some ?obj" by (rule o3)
        show "\<forall>la. h_languages ?obj = Some la \<longrightarrow> length h \<le> la" using lc by simp
        show "\<forall>va. h_value ?obj = Some va \<longrightarrow>
                length h \<le> va \<and> (\<forall>r. HRow r \<in> set (slotsAt ?h3 va) \<longrightarrow> length h \<le> r)"
          using vc sl3 by auto
        show "\<exists>cb. h_codepoints ?obj = Some cb \<and> length h \<le> cb" using c1 len1 by simp
      qed
      have lc1: "\<forall>la. h_languages c = Some la \<longrightarrow> la < length h1" using lc by simp
      have vc1: "\<forall>va. h_value c = Some va \<longrightarrow> va < length h1 \<and>
                   (\<forall>r. HRow r \<in> set (slotsAt h1 va) \<longrightarrow> r < length h1)"
        using vc by simp
      have "absCodepage ?h3 c = absCodepage h1 c" by (rule absCodepage_same [OF s3 lc1 vc1])
      then have ab: "absCodepage ?h3 ?obj = ?dA" using ac by (simp add: absCodepage_codepoints)
      have nm: "numbersAt ?h3 ca = t" using c2 c3 by (simp add: numbersAt_def nth_append)
      have "absEncoding ?h3 (length h2) = Some (withCodepoints ?dA t)"
        using o3 ab nm by (simp add: absEncoding_def)
      moreover have "?h3 ! ca = Numbers t" using c2 c3 by (simp add: nth_append)
      ultimately have "encR h (withCodepoints ?dA t) (length h2, ?h3)"
        using s fresh o3 c2 unfolding encR_def
        by (auto intro!: exI [of _ ?obj] exI [of _ ca])
      then show "sim_outcome (encR h) (Some (Inr (withCodepoints ?dA t)))
                   (case y of (ca, h2) \<Rightarrow> Some (Inr (alloc h2 (Object (c\<lparr>h_codepoints := Some ca\<rparr>)))))"
        using y by (simp add: sim_outcome_Inr alloc_def)
    qed
  qed
qed

lemma sim_both:
  assumes "registry_in n h0 reg"
  shows "(\<forall>cp h. same_below n h0 h \<longrightarrow>
            sim_outcome (encR h) (getEncoding fuel (absRegistry h0 reg) al cp)
              (getEncodingH fuel reg al cp h)) \<and>
         (\<forall>cp ev h. same_below n h0 h \<longrightarrow>
            sim_outcome (cpsR h) (getCodepoints fuel (absRegistry h0 reg) al cp ev)
              (getCodepointsH fuel reg al cp ev h))"
proof (induction fuel)
  case 0
  then show ?case by (simp add: sim_outcome_def)
next
  case (Suc fuel)
  have e: "sim_outcome (encR h) (getEncoding (Suc fuel) (absRegistry h0 reg) al cp)
              (getEncodingH (Suc fuel) reg al cp h)" if "same_below n h0 h" for cp h
    using that Suc.IH by (intro getEncodingH_step [OF assms]) blast+
  have c: "sim_outcome (cpsR h) (getCodepoints (Suc fuel) (absRegistry h0 reg) al cp ev)
              (getCodepointsH (Suc fuel) reg al cp ev h)" if "same_below n h0 h" for cp ev h
    using that Suc.IH by (intro getCodepointsH_step [OF assms]) blast+
  show ?case using e c by blast
qed

lemma getEncodingH_sim:
  "registry_in n h0 reg \<Longrightarrow> same_below n h0 h \<Longrightarrow>
   sim_outcome (encR h) (getEncoding fuel (absRegistry h0 reg) al cp) (getEncodingH fuel reg al cp h)"
  using sim_both by blast

lemma sim_relK_andThen:
  assumes "sim_outcome (relK h P) m mh"
    and "\<And>x y h1. P x y \<Longrightarrow> same_below (length h) h h1 \<Longrightarrow> sim_outcome (relK h1 Q) (f x) (g (y, h1))"
  shows "sim_outcome (relK h Q) (andThen m f) (andThen mh g)"
proof (rule sim_outcome_andThen [OF assms(1)])
  fix x r assume r: "relK h P x r"
  then have p: "P x (fst r)" and s: "same_below (length h) h (snd r)" by (auto simp: relK_def)
  have "sim_outcome (relK (snd r) Q) (f x) (g r)" using assms(2) [OF p s] by simp
  moreover have "relK (snd r) Q z w \<Longrightarrow> relK h Q z w" for z w
    using s same_below_trans [of "length h" h "snd r" "length (snd r)" "snd w"]
    by (auto simp: relK_def same_below_def)
  ultimately show "sim_outcome (relK h Q) (f x) (g r)"
    by (auto simp: sim_outcome_def split: option.splits sum.splits)
qed

lemma sim_relK_Inr: "P x y \<Longrightarrow> sim_outcome (relK h P) (Some (Inr x)) (Some (Inr (y, h)))"
  by (simp add: sim_outcome_def relK_def same_below_refl)

lemma same_below_chain:
  "same_below n h0 h \<Longrightarrow> same_below (length h) h h1 \<Longrightarrow> same_below n h0 h1"
  by (auto simp: same_below_def)

lemma positionH_sim:
  assumes "registry_in n h0 reg" and "same_below n h0 h"
  shows "sim_outcome (relK h (\<lambda>e t. t = codepoints e))
           (getEncoding fuel (absRegistry h0 reg) al cp) (positionH fuel reg al cp h)"
proof -
  have "sim_outcome (relK h (\<lambda>e t. t = codepoints e))
          (andThen (getEncoding fuel (absRegistry h0 reg) al cp) (\<lambda>e. Some (Inr e)))
          (positionH fuel reg al cp h)"
    unfolding positionH_def
  proof (rule sim_outcome_andThen [OF getEncodingH_sim [OF assms]])
    fix e y assume r: "encR h e y"
    obtain a h1 where y: "y = (a, h1)" by (cases y)
    from r y obtain d ca xs where s: "same_below (length h) h h1"
      and ab: "absEncoding h1 a = Some e" and o: "objectAt h1 a = Some d"
      and c1: "h_codepoints d = Some ca" and c2: "ca < length h1" and c3: "h1 ! ca = Numbers xs"
      by (auto simp: encR_def)
    have "numbersAt h1 ca = codepoints e" using ab o c1 c2 c3
      by (auto simp: absEncoding_def withCodepoints_def)
    then show "sim_outcome (relK h (\<lambda>e t. t = codepoints e)) (Some (Inr e))
            (case y of (a, h1) \<Rightarrow>
               case objectAt h1 a of
                 None \<Rightarrow> Some (Inl TypeError)
               | Some definition \<Rightarrow>
                   (case h_codepoints definition of
                      None \<Rightarrow> Some (Inl TypeError)
                    | Some ca \<Rightarrow> Some (Inr (numbersAt h1 ca, h1))))"
      using y o c1 s by (simp add: sim_outcome_def relK_def)
  qed
  moreover have "andThen m (\<lambda>e. Some (Inr e)) = m" for m :: "Encoding outcome"
    by (cases m) (auto simp: andThen_def split: sum.splits)
  ultimately show ?thesis by simp
qed

lemma encodeH_sim:
  assumes "registry_in n h0 reg" and "same_below n h0 h"
  shows "sim_outcome (relK h (=)) (encode fuel (absRegistry h0 reg) al s cp)
           (encodeH fuel reg al s cp h)"
  unfolding encode_def encodeH_def
  by (rule sim_relK_andThen [OF positionH_sim [OF assms]]) (simp add: sim_relK_Inr)

lemma scanCandidatesH_sim:
  assumes "registry_in n h0 reg" and "same_below n h0 h"
  shows "sim_outcome (relK h (=)) (scanCandidates fuel (absRegistry h0 reg) al cands c)
           (scanCandidatesH fuel reg al cands c h)"
  using assms(2)
proof (induction cands arbitrary: h)
  case Nil
  then show ?case by (simp add: sim_relK_Inr)
next
  case (Cons a cands)
  show ?case
    unfolding scanCandidates.simps scanCandidatesH.simps
  proof (rule sim_relK_andThen [OF positionH_sim [OF assms(1) Cons.prems]])
    fix e t h1 assume t: "t = codepoints e" and s: "same_below (length h) h h1"
    have s1: "same_below n h0 h1" by (rule same_below_chain [OF Cons.prems s])
    show "sim_outcome (relK h1 (=))
            (case findIndex (\<lambda>i. i = c) (codepoints e) of
               Some position \<Rightarrow> Some (Inr (Some (a, position)))
             | None \<Rightarrow> scanCandidates fuel (absRegistry h0 reg) al cands c)
            (case (t, h1) of (table, h1) \<Rightarrow>
               case findIndex (\<lambda>i. i = c) table of
                 Some position \<Rightarrow> Some (Inr (Some (a, position), h1))
               | None \<Rightarrow> scanCandidatesH fuel reg al cands c h1)"
      using Cons.IH [OF s1] t
      by (cases "findIndex (\<lambda>i. i = c) (codepoints e)") (simp_all add: sim_relK_Inr)
  qed
qed

lemma tryCurrentH_sim:
  assumes "registry_in n h0 reg" and "same_below n h0 h"
  shows "sim_outcome (relK h (=)) (tryCurrent fuel (absRegistry h0 reg) al cf c)
           (tryCurrentH fuel reg al cf c h)"
proof (cases "cur_codepage cf")
  case None
  then show ?thesis by (simp add: tryCurrent_def tryCurrentH_def sim_relK_Inr)
next
  case (Some cur)
  show ?thesis
  proof (cases "cur = []")
    case True
    then show ?thesis using Some by (simp add: tryCurrent_def tryCurrentH_def sim_relK_Inr)
  next
    case False
    have "sim_outcome (relK h (=))
            (andThen (getEncoding fuel (absRegistry h0 reg) al cur) (\<lambda>definition.
                 case findIndex (\<lambda>i. i = c) (codepoints definition) of
                   Some position \<Rightarrow> Some (Inr (Some cur, position))
                 | None \<Rightarrow> Some (Inr (None, 0))))
            (andThen (positionH fuel reg al cur h) (\<lambda>(table, h1).
                 case findIndex (\<lambda>i. i = c) table of
                   Some position \<Rightarrow> Some (Inr ((Some cur, position), h1))
                 | None \<Rightarrow> Some (Inr ((None, 0), h1))))"
    proof (rule sim_relK_andThen [OF positionH_sim [OF assms]])
      fix e t h1 assume t: "t = codepoints e"
      show "sim_outcome (relK h1 (=))
              (case findIndex (\<lambda>i. i = c) (codepoints e) of
                 Some position \<Rightarrow> Some (Inr (Some cur, position))
               | None \<Rightarrow> Some (Inr (None, 0)))
              (case (t, h1) of (table, h1) \<Rightarrow>
                 case findIndex (\<lambda>i. i = c) table of
                   Some position \<Rightarrow> Some (Inr ((Some cur, position), h1))
                 | None \<Rightarrow> Some (Inr ((None, 0), h1)))"
        using t by (cases "findIndex (\<lambda>i. i = c) (codepoints e)") (simp_all add: sim_relK_Inr)
    qed
    then show ?thesis using Some False by (simp add: tryCurrent_def tryCurrentH_def)
  qed
qed

lemma tryCandidatesH_sim:
  assumes "registry_in n h0 reg" and "same_below n h0 h"
  shows "sim_outcome (relK h (=)) (tryCandidates fuel (absRegistry h0 reg) al cands c av)
           (tryCandidatesH fuel reg al cands c av h)"
proof (cases "truthy (fst av)")
  case True
  then show ?thesis by (simp add: tryCandidates_def tryCandidatesH_def sim_relK_Inr)
next
  case False
  have "sim_outcome (relK h (=))
          (andThen (scanCandidates fuel (absRegistry h0 reg) al cands c) (\<lambda>found.
             case found of
               Some (candidate, position) \<Rightarrow> Some (Inr (Some candidate, position))
             | None \<Rightarrow> Some (Inr av)))
          (andThen (scanCandidatesH fuel reg al cands c h) (\<lambda>(found, h1).
             case found of
               Some (candidate, position) \<Rightarrow> Some (Inr ((Some candidate, position), h1))
             | None \<Rightarrow> Some (Inr (av, h1))))"
  proof (rule sim_relK_andThen [OF scanCandidatesH_sim [OF assms]])
    fix x y :: "(string \<times> nat) option" and h1 assume "x = y"
    then show "sim_outcome (relK h1 (=))
            (case x of Some (candidate, position) \<Rightarrow> Some (Inr (Some candidate, position))
             | None \<Rightarrow> Some (Inr av))
            (case (y, h1) of (found, h1) \<Rightarrow>
               case found of
                 Some (candidate, position) \<Rightarrow> Some (Inr ((Some candidate, position), h1))
               | None \<Rightarrow> Some (Inr (av, h1)))"
      by (cases y) (auto simp: sim_relK_Inr)
  qed
  then show ?thesis using False by (simp add: tryCandidates_def tryCandidatesH_def)
qed

lemma autoStepH_sim:
  assumes "registry_in n h0 reg" and "same_below n h0 h"
  shows "sim_outcome (relK h (=)) (autoStep fuel (absRegistry h0 reg) al s cands st c)
           (autoStepH fuel reg al s cands st c h)"
  unfolding autoStep_def autoStepH_def Let_def
proof (rule sim_relK_andThen [OF tryCurrentH_sim [OF assms]])
  fix a1 b1 :: "string option \<times> nat" and h1
  assume e: "a1 = b1" and s: "same_below (length h) h h1"
  have s1: "same_below n h0 h1" by (rule same_below_chain [OF assms(2) s])
  have "sim_outcome (relK h1 (=))
          (andThen (tryCandidates fuel (absRegistry h0 reg) al cands (codePointAt s c) a1)
             (\<lambda>available2. Some (Inr (finishRound cands st available2))))
          (andThen (tryCandidatesH fuel reg al cands (codePointAt s c) a1 h1)
             (\<lambda>(available2, h2). Some (Inr (finishRound cands st available2, h2))))"
    by (rule sim_relK_andThen [OF tryCandidatesH_sim [OF assms(1) s1]]) (simp add: sim_relK_Inr)
  then show "sim_outcome (relK h1 (=))
          (andThen (tryCandidates fuel (absRegistry h0 reg) al cands (codePointAt s c) a1)
             (\<lambda>available2. Some (Inr (finishRound cands st available2))))
          (case (b1, h1) of (available1, h1) \<Rightarrow>
             andThen (tryCandidatesH fuel reg al cands (codePointAt s c) available1 h1)
               (\<lambda>(available2, h2). Some (Inr (finishRound cands st available2, h2))))"
    using e by simp
qed

lemma autoLoopH_sim:
  assumes "registry_in n h0 reg" and "same_below n h0 h"
  shows "sim_outcome (relK h (=)) (autoLoop fuel (absRegistry h0 reg) al s cands idxs st)
           (autoLoopH fuel reg al s cands idxs st h)"
  using assms(2)
proof (induction idxs arbitrary: st h)
  case Nil
  then show ?case by (simp add: sim_relK_Inr)
next
  case (Cons i idxs)
  show ?case
    unfolding autoLoop.simps autoLoopH.simps
  proof (rule sim_relK_andThen [OF autoStepH_sim [OF assms(1) Cons.prems]])
    fix x y :: "fragment list \<times> currentFragment" and h1
    assume e: "x = y" and s: "same_below (length h) h h1"
    have s1: "same_below n h0 h1" by (rule same_below_chain [OF Cons.prems s])
    show "sim_outcome (relK h1 (=)) (autoLoop fuel (absRegistry h0 reg) al s cands idxs x)
            (case (y, h1) of (st1, h1) \<Rightarrow> autoLoopH fuel reg al s cands idxs st1 h1)"
      using Cons.IH [OF s1, of y] e by simp
  qed
qed

lemma autoEncodeH_sim:
  assumes "registry_in n h0 reg" and "same_below n h0 h"
  shows "sim_outcome (relK h (=)) (autoEncode fuel (absRegistry h0 reg) al s cands)
           (autoEncodeH fuel reg al s cands h)"
  unfolding autoEncode_def autoEncodeH_def
proof (rule sim_relK_andThen [OF autoLoopH_sim [OF assms]], goal_cases)
  case (1 x y h1)
  then show ?case by (cases y) (simp add: sim_relK_Inr)
qed

lemma returned_sim:
  assumes "sim_outcome R p r" and "\<And>x y. R x y \<Longrightarrow> f y = Some x"
  shows "returned f r = p"
proof (cases p)
  case None
  then show ?thesis using assms(1) by (simp add: sim_outcome_def returned_def)
next
  case (Some v)
  show ?thesis
  proof (cases v)
    case (Inl e)
    then show ?thesis using assms(1) Some by (simp add: sim_outcome_def returned_def)
  next
    case (Inr x)
    then obtain y where "r = Some (Inr y)" "R x y" using assms(1) Some by (auto simp: sim_outcome_def)
    then show ?thesis using assms(2) [of x y] Some Inr by (simp add: returned_def)
  qed
qed

lemma getEncodingH_returned:
  assumes "registry_in n h0 reg" and "same_below n h0 h"
  shows "returned (\<lambda>(a, h'). absEncoding h' a) (getEncodingH fuel reg al cp h) =
           getEncoding fuel (absRegistry h0 reg) al cp"
  by (rule returned_sim [OF getEncodingH_sim [OF assms]]) (auto simp: encR_def)

lemma encodeH_returned:
  assumes "registry_in n h0 reg" and "same_below n h0 h"
  shows "returned (\<lambda>(out, h'). Some out) (encodeH fuel reg al s cp h) =
           encode fuel (absRegistry h0 reg) al s cp"
  by (rule returned_sim [OF encodeH_sim [OF assms]]) (auto simp: relK_def)

lemma autoEncodeH_returned:
  assumes "registry_in n h0 reg" and "same_below n h0 h"
  shows "returned (\<lambda>(frags, h'). Some frags) (autoEncodeH fuel reg al s cands h) =
           autoEncode fuel (absRegistry h0 reg) al s cands"
  by (rule returned_sim [OF autoEncodeH_sim [OF assms]]) (auto simp: relK_def)

lemma getEncodingH_Inr:
  assumes "registry_in n h0 reg" and "same_below n h0 h"
    and "getEncodingH fuel reg al cp h = Some (Inr r)"
  shows "\<exists>e. getEncoding fuel (absRegistry h0 reg) al cp = Some (Inr e) \<and> encR h e r"
  using getEncodingH_sim [OF assms(1,2), of fuel al cp] assms(3)
  by (auto simp: sim_outcome_def split: option.splits sum.splits)

lemma getEncodingH_returns:
  assumes "registry_in n h0 reg" and "same_below n h0 h"
    and "getEncoding fuel (absRegistry h0 reg) al cp = Some (Inr e)"
  shows "\<exists>r. getEncodingH fuel reg al cp h = Some (Inr r) \<and> encR h e r"
  using getEncodingH_sim [OF assms(1,2), of fuel al cp] assms(3)
  by (auto simp: sim_outcome_def)

lemma example_slots:
  "slotsAt exampleStore 2 = map HNum [0..<128] @ replicate 127 HHole"
  "slotsAt exampleStore 5 = replicate 8 HHole @ [HRow 6] @ replicate 7 HHole"
  "slotsAt exampleStore 8 = map HNum [128..<256]"
  by (simp_all add: slotsAt_def exampleStore_def del: upt_rec_numeral)

lemma example_registry_in: "registry_in 9 exampleStore exampleObjects"
  unfolding registry_in_def
proof (intro conjI allI impI)
  show "9 \<le> length exampleStore" by (simp add: exampleStore_def)
next
  fix cp da assume r: "exampleObjects cp = Some da"
  then show "da < 9" by (auto simp: exampleObjects_def split: if_splits)
  from r consider "da = 0" | "da = 3" | "da = 7"
    by (auto simp: exampleObjects_def split: if_splits)
  then show "\<exists>d. exampleStore ! da = Object d \<and>
            (\<forall>la. h_languages d = Some la \<longrightarrow> la < 9) \<and>
            (\<forall>va. h_value d = Some va \<longrightarrow>
               va < 9 \<and> (\<forall>r. HRow r \<in> set (slotsAt exampleStore va) \<longrightarrow> r < 9))"
  proof cases
    case 1
    have "exampleStore ! 0 = Object \<lparr>h_name = ''ASCII'', h_languages = Some 1, h_extends = None,
              h_offset = None, h_value = Some 2, h_codepoints = None\<rparr>"
      by (simp add: exampleStore_def)
    then show ?thesis using 1 by (auto simp: example_slots simp del: upt_rec_numeral)
  next
    case 2
    have "exampleStore ! 3 = Object \<lparr>h_name = ''Cp437'', h_languages = Some 4,
              h_extends = Some ''ascii'', h_offset = None, h_value = Some 5, h_codepoints = None\<rparr>"
      by (simp add: exampleStore_def)
    then show ?thesis using 2 by (auto simp: example_slots)
  next
    case 3
    have "exampleStore ! 7 = Object \<lparr>h_name = ''Latin 1'', h_languages = None,
              h_extends = Some ''ascii'', h_offset = Some 128, h_value = Some 8, h_codepoints = None\<rparr>"
      by (simp add: exampleStore_def)
    then show ?thesis using 3 by (auto simp: example_slots simp del: upt_rec_numeral)
  qed
qed

lemma example_absRegistry: "absRegistry exampleStore exampleObjects = exampleDefinitions"
proof (rule ext)
  fix cp
  have a: "absCodepage exampleStore
             \<lparr>h_name = ''ASCII'', h_languages = Some 1, h_extends = None, h_offset = None,
              h_value = Some 2, h_codepoints = None\<rparr> = exampleAscii"
    by (simp add: absCodepage_def exampleStore_def exampleAscii_def stringsAt_def slotsAt_def
          absSlot_def comp_def del: upt_rec_numeral)
  have b: "absCodepage exampleStore
             \<lparr>h_name = ''Cp437'', h_languages = Some 4, h_extends = Some ''ascii'', h_offset = None,
              h_value = Some 5, h_codepoints = None\<rparr> = exampleCp437"
    by (simp add: absCodepage_def exampleStore_def exampleCp437_def stringsAt_def slotsAt_def
          absSlot_def numbersAt_def del: upt_rec_numeral)
  have c: "absCodepage exampleStore
             \<lparr>h_name = ''Latin 1'', h_languages = None, h_extends = Some ''ascii'',
              h_offset = Some 128, h_value = Some 8, h_codepoints = None\<rparr> = exampleLatin1"
    by (simp add: absCodepage_def exampleStore_def exampleLatin1_def stringsAt_def slotsAt_def
          absSlot_def comp_def del: upt_rec_numeral)
  have o: "objectAt exampleStore 0 = Some \<lparr>h_name = ''ASCII'', h_languages = Some 1, h_extends = None, h_offset = None,
              h_value = Some 2, h_codepoints = None\<rparr>"
      "objectAt exampleStore 3 = Some \<lparr>h_name = ''Cp437'', h_languages = Some 4, h_extends = Some ''ascii'', h_offset = None,
              h_value = Some 5, h_codepoints = None\<rparr>"
      "objectAt exampleStore 7 = Some \<lparr>h_name = ''Latin 1'', h_languages = None, h_extends = Some ''ascii'',
              h_offset = Some 128, h_value = Some 8, h_codepoints = None\<rparr>"
    by (simp_all add: objectAt_def exampleStore_def del: upt_rec_numeral)
  show "absRegistry exampleStore exampleObjects cp = exampleDefinitions cp"
    by (simp add: absRegistry_def exampleObjects_def exampleDefinitions_def o a b c
          del: One_nat_def)
qed

section \<open>The claims\<close>

text \<open>
  C1 (as the code has it). Over a registry that has \<open>ascii\<close> and no cycle of \<open>extends\<close>,
  \<open>encode(s, p)\<close> returns, and its output has one byte per UTF-16 code unit of \<open>s\<close>: its
  length is \<open>s.length\<close>, which is the number of code points of \<open>s\<close> plus the number of
  those above U+FFFF.
\<close>

theorem encode_length_units:
  assumes "chain_ok defs al rank" and "2 * rank (resolveName defs al p) + 2 \<le> fuel"
  shows "\<exists>out. encode fuel defs al s p = Some (Inr out) \<and> length out = length s \<and>
               length out = codePointCount s + astralCount s"
proof -
  obtain e where "getEncoding fuel defs al p = Some (Inr e)"
    using getEncoding_total [OF assms] by blast
  then show ?thesis using unit_count [of s] by (simp add: encode_returns)
qed

theorem encode_length_units_witness:
  "\<exists>out. encode 4 exampleDefinitions exampleAliases [0x41, 0xD83D, 0xDE00] ''ibm437'' = Some (Inr out) \<and>
         length out = length [0x41, 0xD83D, 0xDE00 :: 16 word] \<and>
         length out = codePointCount [0x41, 0xD83D, 0xDE00] + astralCount [0x41, 0xD83D, 0xDE00]"
  by (rule encode_length_units [OF example_chain_ok])
     (simp add: exampleRank_def example_resolveName)

text \<open>
  C1 as stated fails: the one code point U+1F600 is two code units, and \<open>encode\<close> gives
  two bytes for it.
\<close>

theorem encode_code_points_counterexample:
  "encode 4 exampleDefinitions exampleAliases [0xD83D, 0xDE00] ''ascii'' = Some (Inr [0x3F, 0x3F]) \<and>
   codePointCount [0xD83D, 0xDE00] = 1"
  by (simp add: encode_def example_eval codePointAt_def upt_rec codePointCount_def)

text \<open>
  C2 (as the code has it). With an empty candidate list \<open>autoEncode\<close> returns the empty list
  of fragments, whatever the input; it raises nothing.
\<close>

theorem autoEncode_no_candidates:
  "autoEncode fuel defs al s [] = Some (Inr [])"
  by (simp add: autoEncode_def autoLoop_no_candidates)

theorem autoEncode_no_candidates_witness:
  "autoEncode 0 Map.empty Map.empty [0x41, 0x42] [] = Some (Inr [])"
  by (rule autoEncode_no_candidates)

text \<open>C2 as stated fails: the call returns a result.\<close>

theorem autoEncode_no_candidates_counterexample:
  "autoEncode 4 exampleDefinitions exampleAliases [0x41] [] = Some (Inr [])"
  by (simp add: autoEncode_def autoStep_unfold truthy_def codePointAt_def upt_rec)

text \<open>
  C3. \<open>encode\<close> returns, and the byte at index \<open>c\<close> is the lowest index \<open>b\<close> at which the
  resolved table of \<open>p\<close> holds the code point read at \<open>c\<close> (stored in a byte), and
  \<open>0x3F\<close> when no index holds it.
\<close>

theorem encode_lowest_index:
  assumes "chain_ok defs al rank" and "2 * rank (resolveName defs al p) + 2 \<le> fuel"
    and "c < length s"
  shows "\<exists>e out cp. getEncoding fuel defs al p = Some (Inr e) \<and>
           encode fuel defs al s p = Some (Inr out) \<and> codePointAt s c = Some cp \<and>
           (\<forall>b. b < length (codepoints e) \<and> codepoints e ! b = Some cp \<and>
                (\<forall>b'<b. codepoints e ! b' \<noteq> Some cp) \<longrightarrow> out ! c = of_nat b) \<and>
           ((\<forall>b<length (codepoints e). codepoints e ! b \<noteq> Some cp) \<longrightarrow> out ! c = 0x3F)"
proof -
  obtain e where e: "getEncoding fuel defs al p = Some (Inr e)"
    using getEncoding_total [OF assms(1,2)] by blast
  obtain cp where cp: "codePointAt s c = Some cp"
    using assms(3) by (cases "codePointAt s c") (auto simp: codePointAt_def Let_def split: if_splits)
  let ?out = "map (\<lambda>c. case findIndex (\<lambda>i. i = codePointAt s c) (codepoints e) of
                              Some position \<Rightarrow> of_nat position
                            | None \<Rightarrow> (0x3F :: 8 word))
                      [0..<length s]"
  have out: "encode fuel defs al s p = Some (Inr ?out)" using e by (rule encode_returns)
  have nth: "?out ! c = (case findIndex (\<lambda>i. i = Some cp) (codepoints e) of
                              Some position \<Rightarrow> of_nat position
                            | None \<Rightarrow> 0x3F)"
    using assms(3) cp by simp
  have hit: "?out ! c = of_nat b"
    if "b < length (codepoints e) \<and> codepoints e ! b = Some cp \<and> (\<forall>b'<b. codepoints e ! b' \<noteq> Some cp)" for b
  proof -
    have "findIndex (\<lambda>i. i = Some cp) (codepoints e) = Some b"
      using that by (simp add: findIndex_Some)
    then show ?thesis using nth by simp
  qed
  have miss: "?out ! c = 0x3F" if "\<forall>b<length (codepoints e). codepoints e ! b \<noteq> Some cp"
  proof -
    have "findIndex (\<lambda>i. i = Some cp) (codepoints e) = None"
      using that by (auto simp: findIndex_None in_set_conv_nth)
    then show ?thesis using nth by simp
  qed
  show ?thesis using e out cp hit miss by blast
qed

theorem encode_lowest_index_witness:
  "\<exists>out. encode 4 exampleDefinitions exampleAliases [0x41, 0xC7] ''ibm437'' = Some (Inr out) \<and>
         out ! 1 = 0x80"
proof -
  obtain e out cp where e: "getEncoding 4 exampleDefinitions exampleAliases ''ibm437'' = Some (Inr e)"
    and out: "encode 4 exampleDefinitions exampleAliases [0x41, 0xC7] ''ibm437'' = Some (Inr out)"
    and cp: "codePointAt [0x41, 0xC7] 1 = Some cp"
    and hit: "\<forall>b. b < length (codepoints e) \<and> codepoints e ! b = Some cp \<and>
                (\<forall>b'<b. codepoints e ! b' \<noteq> Some cp) \<longrightarrow> out ! 1 = of_nat b"
    using encode_lowest_index [OF example_chain_ok, of "''ibm437''" 4 1 "[0x41, 0xC7]"]
    by (auto simp: exampleRank_def example_resolveName)
  have e': "codepoints e = exampleCp437Table" using e by (auto simp: example_eval)
  have cp': "cp = 0xC7" using cp by (simp add: codePointAt_def)
  have "findIndex (\<lambda>i. i = Some 0xC7) exampleCp437Table = Some 128"
    by (simp add: example_findIndex)
  then have "128 < length exampleCp437Table \<and> exampleCp437Table ! 128 = Some 0xC7 \<and>
             (\<forall>b'<128. exampleCp437Table ! b' \<noteq> Some 0xC7)"
    by (simp add: findIndex_Some)
  then have "out ! 1 = of_nat 128" using hit e' cp' by simp
  then show ?thesis using out by simp
qed

text \<open>
  C4. When the definition of \<open>p\<close> has \<open>extends = q\<close>, both tables resolve, and at every
  byte index below 256 for which the \<open>value\<close> of \<open>p\<close> supplies nothing, the table of \<open>p\<close>
  has the entry of the table of \<open>q\<close>.
\<close>

theorem overlay_inherits:
  assumes "chain_ok defs al rank" and "2 * rank (resolveName defs al p) + 2 \<le> fuel"
    and "defs (resolveName defs al p) = Some d" and "extends d = Some q"
    and "i < 256" and "decodeRule d i = None"
  shows "\<exists>ep eq. getEncoding fuel defs al p = Some (Inr ep) \<and>
                 getEncoding fuel defs al q = Some (Inr eq) \<and>
                 codepoints ep ! i = codepoints eq ! i"
proof -
  obtain ep where ep: "getEncoding fuel defs al p = Some (Inr ep)"
    using getEncoding_total [OF assms(1,2)] by blast
  from ep obtain f d' t where f: "fuel = Suc f" and d': "defs (resolveName defs al p) = Some d'"
    and t: "getCodepoints f defs al (resolveName defs al p) True = Some (Inr t)"
    and epd: "ep = \<lparr>name = name d', languages = languages d', extends = extends d',
              offset = offset d', cp_value = cp_value d', codepoints = t\<rparr>"
    by (rule getEncoding_Inr)
  from t obtain f' d'' base where f': "f = Suc f'" and d'': "defs (resolveName defs al p) = Some d''"
    and b: "baseTable f' defs al d'' True = Some (Inr base)" and tb: "t = overlayValue d'' base"
    by (rule getCodepoints_Inr)
  have dd: "d'' = d" using d'' assms(3) by simp
  obtain eq where eq: "getEncoding f' defs al q = Some (Inr eq)" and base: "base = codepoints eq"
    using b assms(4) dd by (auto simp: baseTable_def andThen_Inr_iff)
  have eq': "getEncoding fuel defs al q = Some (Inr eq)"
    using eq by (rule getEncoding_fuel_mono) (simp add: f f')
  have l1: "i < length (codepoints eq)" using getEncoding_length_ge [OF eq] assms(5) by simp
  have l2: "i < length t"
    using overlayValue_length [of base d] l1 base tb dd by simp
  have "js_get t i = js_get (codepoints eq) i"
    using assms(6) by (simp add: tb dd base overlayValue_get)
  then have "t ! i = codepoints eq ! i" using l1 l2 by (simp add: js_get_def)
  then show ?thesis using ep eq' epd by auto
qed

theorem overlay_inherits_witness:
  "\<exists>ep eq. getEncoding 4 exampleDefinitions exampleAliases ''ibm437'' = Some (Inr ep) \<and>
           getEncoding 4 exampleDefinitions exampleAliases ''ascii'' = Some (Inr eq) \<and>
           codepoints ep ! 65 = codepoints eq ! 65"
  by (rule overlay_inherits [OF example_chain_ok, where d = exampleCp437])
     (simp_all add: exampleRank_def example_resolveName example_lookup example_extends
        decode_exampleCp437)

text \<open>
  C5. \<open>getCodepoints\<close> returns, and its table is the table it starts from with the
  definition's \<open>value\<close> written over it by shape alone: a \<open>value\<close> of exactly 16 slots as
  sparse-diff form (the numeric sub-slot \<open>j\<close> of a row \<open>i\<close> at index \<open>i * 16 + j\<close>), any
  other as dense form (the numeric entry \<open>k\<close> at index \<open>offset + k\<close>), and nothing else
  changed: every index reads what the decode rule supplies, or the starting table.
\<close>

theorem value_decoded_by_shape:
  assumes "chain_ok defs al rank" and "defs cp = Some d" and "2 * rank cp + 1 \<le> fuel"
    and "cp_value d = Some v"
  shows "\<exists>t base. getCodepoints fuel defs al cp ev = Some (Inr t) \<and>
           baseTable (fuel - 1) defs al d ev = Some (Inr base) \<and>
           (length v = 16 \<longrightarrow>
              (\<forall>i<16. \<forall>j<16. \<forall>r n. v ! i = Row r \<and> js_get r j = Some n
                   \<longrightarrow> js_get t (i * 16 + j) = Some n)) \<and>
           (length v \<noteq> 16 \<longrightarrow>
              (\<forall>k<length v. \<forall>n. v ! k = Num n
                   \<longrightarrow> js_get t ((case offset d of None \<Rightarrow> 0 | Some off \<Rightarrow> off) + k) = Some n)) \<and>
           (\<forall>idx. js_get t idx =
                    (case decodeRule d idx of Some x \<Rightarrow> Some x | None \<Rightarrow> js_get base idx))"
proof -
  obtain t where t: "getCodepoints fuel defs al cp ev = Some (Inr t)"
    using getCodepoints_total_any [OF assms(1-3)] by blast
  from t obtain f d' base where f: "fuel = Suc f" and d': "defs cp = Some d'"
    and b: "baseTable f defs al d' ev = Some (Inr base)" and tb: "t = overlayValue d' base"
    by (rule getCodepoints_Inr)
  have dd: "d' = d" using d' assms(2) by simp
  have all: "js_get t idx = (case decodeRule d idx of Some x \<Rightarrow> Some x | None \<Rightarrow> js_get base idx)"
    for idx by (simp add: tb dd overlayValue_get)
  have sparse: "js_get t (i * 16 + j) = Some n"
    if "length v = 16" "i < 16" "j < 16" "v ! i = Row r \<and> js_get r j = Some n" for i j r n
  proof -
    have "(i * 16 + j) div 16 = i" "(i * 16 + j) mod 16 = j" "i * 16 + j < 256"
      using that(2,3) by auto
    then have "decodeRule d (i * 16 + j) = Some n"
      using that assms(4) by (simp add: decodeRule_def sparseRule_def)
    then show ?thesis by (simp add: all)
  qed
  have dense: "js_get t ((case offset d of None \<Rightarrow> 0 | Some off \<Rightarrow> off) + k) = Some n"
    if "length v \<noteq> 16" "k < length v" "v ! k = Num n" for k n
  proof -
    have "decodeRule d ((case offset d of None \<Rightarrow> 0 | Some off \<Rightarrow> off) + k) = Some n"
      using that assms(4) by (simp add: decodeRule_def denseRule_def)
    then show ?thesis by (simp add: all)
  qed
  have "baseTable (fuel - 1) defs al d ev = Some (Inr base)" using b f dd by simp
  then show ?thesis using t sparse dense all by blast
qed

theorem value_decoded_by_shape_witness:
  "(\<exists>t. getCodepoints 3 exampleDefinitions exampleAliases ''cp437'' True = Some (Inr t) \<and>
        js_get t (8 * 16 + 2) = Some 0xE9) \<and>
   (\<exists>t. getCodepoints 3 exampleDefinitions exampleAliases ''latin1'' False = Some (Inr t) \<and>
        js_get t (128 + 5) = Some 133)"
proof
  let ?v = "replicate 8 Hole @ [Row [Some 0xC7, Some 0xFC, Some 0xE9]] @ replicate 7 Hole"
  have v: "cp_value exampleCp437 = Some ?v" by (simp add: exampleCp437_def)
  have r: "2 * exampleRank ''cp437'' + 1 \<le> 3" by (simp add: exampleRank_def)
  obtain t where t: "getCodepoints 3 exampleDefinitions exampleAliases ''cp437'' True = Some (Inr t)"
    and sp: "length ?v = 16 \<longrightarrow>
              (\<forall>i<16. \<forall>j<16. \<forall>r n. ?v ! i = Row r \<and> js_get r j = Some n
                   \<longrightarrow> js_get t (i * 16 + j) = Some n)"
    using value_decoded_by_shape [OF example_chain_ok example_lookup(2) r v, of True] by blast
  have "?v ! 8 = Row [Some 0xC7, Some 0xFC, Some 0xE9] \<and>
        js_get [Some 0xC7, Some 0xFC, Some (0xE9::nat)] 2 = Some 0xE9"
    by (simp add: nth_append js_get_def)
  then have "js_get t (8 * 16 + 2) = Some 0xE9"
    by (intro sp [rule_format, of 8 2 "[Some 0xC7, Some 0xFC, Some 0xE9]" "0xE9"]) simp_all
  then show "\<exists>t. getCodepoints 3 exampleDefinitions exampleAliases ''cp437'' True = Some (Inr t) \<and>
        js_get t (8 * 16 + 2) = Some 0xE9" using t by blast
next
  let ?v = "map Num [128..<256]"
  have v: "cp_value exampleLatin1 = Some ?v" by (simp add: exampleLatin1_def)
  have o: "offset exampleLatin1 = Some 128" by (simp add: exampleLatin1_def)
  have r: "2 * exampleRank ''latin1'' + 1 \<le> 3" by (simp add: exampleRank_def)
  obtain t where t: "getCodepoints 3 exampleDefinitions exampleAliases ''latin1'' False = Some (Inr t)"
    and de: "length ?v \<noteq> 16 \<longrightarrow>
              (\<forall>k<length ?v. \<forall>n. ?v ! k = Num n
                   \<longrightarrow> js_get t ((case offset exampleLatin1 of None \<Rightarrow> 0 | Some off \<Rightarrow> off) + k) = Some n)"
    using value_decoded_by_shape [OF example_chain_ok example_lookup(3) r v, of False] by blast
  have "?v ! 5 = Num 133" and len: "length ?v = 128" by (simp_all del: upt_rec_numeral)
  then have "js_get t ((case offset exampleLatin1 of None \<Rightarrow> 0 | Some off \<Rightarrow> off) + 5) = Some 133"
    by (intro de [rule_format, of 5 133]) simp_all
  then have "js_get t (128 + 5) = Some 133" using o by simp
  then show "\<exists>t. getCodepoints 3 exampleDefinitions exampleAliases ''latin1'' False = Some (Inr t) \<and>
        js_get t (128 + 5) = Some 133" using t by blast
qed

text \<open>
  C6. In the state that the loop of \<open>autoEncode\<close> has reached before round \<open>k\<close>, when the
  current fragment has a codepage and the table of that codepage has the code point read at
  \<open>k\<close>, the round keeps the codepage: no fragment is closed, and one byte is appended to the
  current fragment (the position in that table; \<open>0x3F\<close> when the codepage is the empty
  string). The candidates are not consulted for it, whatever their rank.
\<close>

theorem autoEncode_sticky:
  assumes "autoLoop fuel defs al s cands [0..<k] ([], \<lparr>cur_codepage = None, chars = []\<rparr>) =
             Some (Inr (frs, cf))"
    and "cur_codepage cf = Some cur"
    and "getEncoding fuel defs al cur = Some (Inr e)"
    and "findIndex (\<lambda>i. i = codePointAt s k) (codepoints e) = Some pos"
  shows "autoStep fuel defs al s cands (frs, cf) k =
           Some (Inr (frs, cf\<lparr>chars := chars cf @ [if cur = [] then 0x3F else pos]\<rparr>)) \<and>
         autoLoop fuel defs al s cands [0..<Suc k] ([], \<lparr>cur_codepage = None, chars = []\<rparr>) =
           Some (Inr (frs, cf\<lparr>chars := chars cf @ [if cur = [] then 0x3F else pos]\<rparr>))"
proof -
  have step: "autoStep fuel defs al s cands (frs, cf) k =
           Some (Inr (frs, cf\<lparr>chars := chars cf @ [if cur = [] then 0x3F else pos]\<rparr>))"
  proof (cases "cur = []")
    case False
    then show ?thesis using autoStep_sticky [OF assms(2) False assms(3,4)] by simp
  next
    case True
    have "cur_codepage (snd (frs, cf)) = Some [] \<longrightarrow> cands \<noteq> [] \<and> hd cands = []"
      by (rule autoLoop_head [OF assms(1)]) simp
    then obtain rest where "cands = [] # rest"
      using assms(2) True by (cases cands) auto
    then show ?thesis
      using autoStep_sticky_empty [of cf cands rest fuel defs al e s k pos frs] assms(2-4) True
      by simp
  qed
  have "autoLoop fuel defs al s cands [0..<Suc k] ([], \<lparr>cur_codepage = None, chars = []\<rparr>) =
          andThen (Some (Inr (frs, cf))) (autoLoop fuel defs al s cands [k])"
    using autoLoop_append [of fuel defs al s cands "[0..<k]" "[k]"] assms(1) by simp
  then show ?thesis using step by simp
qed

theorem autoEncode_sticky_witness:
  "autoStep 4 exampleDefinitions exampleAliases [0xFF, 0x41] [''cp437'', ''latin1'']
     ([], \<lparr>cur_codepage = Some ''latin1'', chars = [0xFF]\<rparr>) 1 =
     Some (Inr ([], \<lparr>cur_codepage = Some ''latin1'', chars = [0xFF, 0x41]\<rparr>)) \<and>
   findIndex (\<lambda>i. i = codePointAt [0xFF, 0x41] 1) exampleCp437Table = Some 0x41"
proof -
  have loop: "autoLoop 4 exampleDefinitions exampleAliases [0xFF, 0x41] [''cp437'', ''latin1'']
          [0..<1] ([], \<lparr>cur_codepage = None, chars = []\<rparr>) =
        Some (Inr ([], \<lparr>cur_codepage = Some ''latin1'', chars = [0xFF]\<rparr>))"
    by (simp add: autoStep_unfold example_eval codePointAt_def truthy_def)
  have enc: "getEncoding 4 exampleDefinitions exampleAliases ''latin1'' =
        Some (Inr (withCodepoints exampleLatin1 exampleLatin1Table))"
    by (simp add: example_eval)
  have pos: "findIndex (\<lambda>i. i = codePointAt [0xFF, 0x41] 1)
               (codepoints (withCodepoints exampleLatin1 exampleLatin1Table)) = Some 0x41"
    by (simp add: example_eval codePointAt_def)
  have "cur_codepage \<lparr>cur_codepage = Some ''latin1'', chars = [0xFF]\<rparr> = Some ''latin1''"
    by simp
  from autoEncode_sticky [OF loop this enc pos]
  show ?thesis by (simp add: example_eval codePointAt_def)
qed

text \<open>
  C7 (as the code has it). For a candidate list whose first identifier is not the empty
  string, over a registry that has \<open>ascii\<close> and no cycle of \<open>extends\<close>, \<open>autoEncode\<close>
  returns, and the byte lengths of its fragments sum to \<open>s.length\<close>, the number of UTF-16
  code units of \<open>s\<close>: the number of code points of \<open>s\<close> plus the number of those above
  U+FFFF.
\<close>

theorem autoEncode_length_units:
  assumes "chain_ok defs al rank"
    and "\<forall>c\<in>set cands. 2 * rank (resolveName defs al c) + 2 \<le> fuel"
    and "cands \<noteq> []" and "hd cands \<noteq> []"
  shows "\<exists>frags. autoEncode fuel defs al s cands = Some (Inr frags) \<and>
           sum_list (map (\<lambda>f. length (bytes f)) frags) = length s \<and>
           sum_list (map (\<lambda>f. length (bytes f)) frags) = codePointCount s + astralCount s"
proof -
  have "\<forall>c\<in>set cands. \<exists>e. getEncoding fuel defs al c = Some (Inr e)"
    using getEncoding_total [OF assms(1)] assms(2) by blast
  then show ?thesis
    using autoEncode_counts [OF _ assms(3,4), of fuel defs al s] unit_count [of s] by auto
qed

theorem autoEncode_length_units_witness:
  "\<exists>frags. autoEncode 4 exampleDefinitions exampleAliases [0x41, 0xD83D, 0xDE00, 0xFF]
              [''cp437'', ''latin1''] = Some (Inr frags) \<and>
           sum_list (map (\<lambda>f. length (bytes f)) frags) = length [0x41, 0xD83D, 0xDE00, 0xFF :: 16 word] \<and>
           sum_list (map (\<lambda>f. length (bytes f)) frags) =
             codePointCount [0x41, 0xD83D, 0xDE00, 0xFF] + astralCount [0x41, 0xD83D, 0xDE00, 0xFF]"
  by (rule autoEncode_length_units [OF example_chain_ok])
     (simp_all add: exampleRank_def example_resolveName)

text \<open>
  C7 as stated fails twice: a code point of two code units gives two bytes, and with the
  empty string as first candidate the bytes are never flushed into a fragment.
\<close>

theorem autoEncode_code_points_counterexample:
  "autoEncode 4 exampleDefinitions exampleAliases [0xD83D, 0xDE00] [''ascii''] =
     Some (Inr [\<lparr>codepage = ''ascii'', bytes = [0x3F, 0x3F]\<rparr>]) \<and>
   codePointCount [0xD83D, 0xDE00] = 1 \<and>
   autoEncode 4 exampleDefinitions exampleAliases [0x41] [''''] = Some (Inr []) \<and>
   codePointCount [0x41] = 1"
  by (simp add: autoEncode_def autoStep_unfold example_eval codePointAt_def upt_rec truthy_def
        codePointCount_def)

text \<open>
  C8. Over a registry in the generated format, the table of every codepage resolves, has
  exactly 256 entries, and each entry is a code point or the sentinel \<open>0xFFFD\<close>. A
  definition without \<open>extends\<close> starts from 256 sentinels, so its table has the sentinel
  wherever its \<open>value\<close> supplies nothing.
\<close>

theorem resolved_table_invariant:
  assumes "chain_ok defs al rank" and "format_ok defs"
    and "2 * rank (resolveName defs al p) + 2 \<le> fuel"
  shows "\<exists>e d. getEncoding fuel defs al p = Some (Inr e) \<and>
           defs (resolveName defs al p) = Some d \<and>
           length (codepoints e) = 256 \<and>
           list_all (\<lambda>x. \<exists>n. x = Some n \<and> (validCodePoint n \<or> n = 0xFFFD)) (codepoints e) \<and>
           (extends d = None \<longrightarrow>
              baseTable (fuel - 2) defs al d True = Some (Inr (replicate 256 (Some 0xFFFD))) \<and>
              (\<forall>i<256. decodeRule d i = None \<longrightarrow> codepoints e ! i = Some 0xFFFD))"
proof -
  obtain e where e: "getEncoding fuel defs al p = Some (Inr e)"
    using getEncoding_total [OF assms(1,3)] by blast
  have inv: "table_inv (codepoints e)" using getEncoding_table_inv [OF assms(2) e] .
  from e obtain f d t where f: "fuel = Suc f" and d: "defs (resolveName defs al p) = Some d"
    and t: "getCodepoints f defs al (resolveName defs al p) True = Some (Inr t)"
    and ed: "e = \<lparr>name = name d, languages = languages d, extends = extends d,
              offset = offset d, cp_value = cp_value d, codepoints = t\<rparr>"
    by (rule getEncoding_Inr)
  from t obtain f' d' base where f': "f = Suc f'" and d': "defs (resolveName defs al p) = Some d'"
    and b: "baseTable f' defs al d' True = Some (Inr base)" and tb: "t = overlayValue d' base"
    by (rule getCodepoints_Inr)
  have dd: "d' = d" using d d' by simp
  have ok: "list_all (\<lambda>x. \<exists>n. x = Some n \<and> (validCodePoint n \<or> n = 0xFFFD)) (codepoints e)"
    using inv by (auto simp: table_inv_def entry_ok_def list_all_iff split: option.splits)
  have root: "baseTable (fuel - 2) defs al d True = Some (Inr (replicate 256 (Some 0xFFFD))) \<and>
              (\<forall>i<256. decodeRule d i = None \<longrightarrow> codepoints e ! i = Some 0xFFFD)"
    if n: "extends d = None"
  proof -
    have b0: "baseTable (fuel - 2) defs al d True = Some (Inr (replicate 256 (Some 0xFFFD)))"
      using n by (simp add: baseTable_def)
    then have base: "base = replicate 256 (Some 0xFFFD)" using b n dd by (simp add: baseTable_def)
    have "codepoints e ! i = Some 0xFFFD" if i: "i < 256" and no: "decodeRule d i = None" for i
    proof -
      have "js_get t i = js_get base i" using no by (simp add: tb dd overlayValue_get)
      moreover have "length t = 256" using inv ed by (simp add: table_inv_def)
      ultimately show ?thesis using i base ed by (simp add: js_get_def)
    qed
    then show ?thesis using b0 by blast
  qed
  show ?thesis using e d inv ok root by (auto simp: table_inv_def)
qed

theorem resolved_table_invariant_witness:
  "\<exists>e. getEncoding 4 exampleDefinitions exampleAliases ''ascii'' = Some (Inr e) \<and>
       length (codepoints e) = 256 \<and> codepoints e ! 200 = Some 0xFFFD"
proof -
  have r: "2 * exampleRank (resolveName exampleDefinitions exampleAliases ''ascii'') + 2 \<le> 4"
    by (simp add: exampleRank_def example_resolveName)
  obtain e d where e: "getEncoding 4 exampleDefinitions exampleAliases ''ascii'' = Some (Inr e)"
    and d: "exampleDefinitions (resolveName exampleDefinitions exampleAliases ''ascii'') = Some d"
    and len: "length (codepoints e) = 256"
    and root: "extends d = None \<longrightarrow>
              baseTable (4 - 2) exampleDefinitions exampleAliases d True =
                Some (Inr (replicate 256 (Some 0xFFFD))) \<and>
              (\<forall>i<256. decodeRule d i = None \<longrightarrow> codepoints e ! i = Some 0xFFFD)"
    using resolved_table_invariant [OF example_chain_ok example_format_ok r]
    by (elim exE conjE) (rule that)
  have dd: "d = exampleAscii" using d by (simp add: example_resolveName example_lookup)
  have "codepoints e ! 200 = Some 0xFFFD"
    using root dd by (simp add: example_extends decode_exampleAscii)
  then show ?thesis using e len by blast
qed

text \<open>
  C9. \<open>getEncoding\<close> applies the alias map first; when the identifier it then has is not
  in the registry, it returns, without an error, the fields of the \<open>ascii\<close> definition and
  the table of \<open>ascii\<close>, and \<open>encode\<close> encodes with that table.
\<close>

theorem getEncoding_falls_back_to_ascii:
  assumes "chain_ok defs al rank" and "2 * rank ''ascii'' + 2 \<le> fuel"
    and "defs (case al cp of Some a \<Rightarrow> a | None \<Rightarrow> cp) = None"
  shows "\<exists>a t. defs ''ascii'' = Some a \<and>
           getCodepoints (fuel - 1) defs al ''ascii'' True = Some (Inr t) \<and>
           getEncoding fuel defs al cp = Some (Inr (withCodepoints a t)) \<and>
           encode fuel defs al s cp =
             Some (Inr (map (\<lambda>c. case findIndex (\<lambda>i. i = codePointAt s c) t of
                                    Some position \<Rightarrow> of_nat position
                                  | None \<Rightarrow> 0x3F)
                            [0..<length s]))"
proof -
  have r: "resolveName defs al cp = ''ascii''" using assms(3) by (simp add: resolveName_def)
  obtain e where e: "getEncoding fuel defs al cp = Some (Inr e)"
    using getEncoding_total [OF assms(1), of cp fuel] assms(2) r by auto
  from e obtain f d t where f: "fuel = Suc f" and d: "defs (resolveName defs al cp) = Some d"
    and t: "getCodepoints f defs al (resolveName defs al cp) True = Some (Inr t)"
    and ed: "e = \<lparr>name = name d, languages = languages d, extends = extends d,
              offset = offset d, cp_value = cp_value d, codepoints = t\<rparr>"
    by (rule getEncoding_Inr)
  have "e = withCodepoints d t" using ed by (simp add: withCodepoints_def)
  then show ?thesis
    using e d t f r encode_returns [OF e, of s] by (auto simp: withCodepoints_codepoints)
qed

theorem getEncoding_falls_back_to_ascii_witness:
  "\<exists>t. getCodepoints 3 exampleDefinitions exampleAliases ''ascii'' True = Some (Inr t) \<and>
       getEncoding 4 exampleDefinitions exampleAliases ''klingon'' =
         Some (Inr (withCodepoints exampleAscii t)) \<and>
       encode 4 exampleDefinitions exampleAliases [0x41, 0xC7] ''klingon'' =
         Some (Inr (map (\<lambda>c. case findIndex (\<lambda>i. i = codePointAt [0x41, 0xC7] c) t of
                                    Some position \<Rightarrow> of_nat position
                                  | None \<Rightarrow> 0x3F)
                            [0..<length [0x41, 0xC7 :: 16 word]]))"
proof -
  have r: "2 * exampleRank ''ascii'' + 2 \<le> 4" by (simp add: exampleRank_def)
  have u: "exampleDefinitions (case exampleAliases ''klingon'' of Some a \<Rightarrow> a | None \<Rightarrow> ''klingon'') = None"
    by (simp add: exampleAliases_def exampleDefinitions_def)
  from getEncoding_falls_back_to_ascii [OF example_chain_ok r u, of "[0x41, 0xC7]"]
  show ?thesis by (auto simp: example_lookup)
qed

text \<open>
  C10. On the store, with the registry in the cells that exist when \<open>getEncoding\<close> is
  called: the object it returns and every array of that object (\<open>languages\<close>, \<open>value\<close> and
  its rows, \<open>codepoints\<close>) are cells made by the call, and no earlier cell is changed. So in
  any store \<open>h2\<close> that differs from the store after the call only in such later cells (the
  caller has changed the returned object and its arrays as it pleased), \<open>getEncoding\<close>,
  \<open>encode\<close> and \<open>autoEncode\<close> return, for every codepage, what they return in the store
  \<open>h1\<close> right after the call: what the registry alone determines.
\<close>

theorem getEncoding_returns_fresh_copy:
  assumes "registry_in (length h) h reg"
    and "getEncodingH fuel reg al cp h = Some (Inr (a, h1))"
    and "same_below (length h) h h2"
  shows "fresh_object (length h) h1 a \<and> same_below (length h) h h1 \<and>
         returned (\<lambda>(a', h'). absEncoding h' a') (getEncodingH fuel' reg al cp' h2) =
           getEncoding fuel' (absRegistry h reg) al cp' \<and>
         returned (\<lambda>(a', h'). absEncoding h' a') (getEncodingH fuel' reg al cp' h1) =
           getEncoding fuel' (absRegistry h reg) al cp' \<and>
         returned (\<lambda>(out, h'). Some out) (encodeH fuel' reg al s cp' h2) =
           encode fuel' (absRegistry h reg) al s cp' \<and>
         returned (\<lambda>(out, h'). Some out) (encodeH fuel' reg al s cp' h1) =
           encode fuel' (absRegistry h reg) al s cp' \<and>
         returned (\<lambda>(frags, h'). Some frags) (autoEncodeH fuel' reg al s cands h2) =
           autoEncode fuel' (absRegistry h reg) al s cands \<and>
         returned (\<lambda>(frags, h'). Some frags) (autoEncodeH fuel' reg al s cands h1) =
           autoEncode fuel' (absRegistry h reg) al s cands"
proof -
  have refl: "same_below (length h) h h" by (simp add: same_below_refl)
  obtain e where "encR h e (a, h1)"
    using getEncodingH_Inr [OF assms(1) refl assms(2)] by blast
  then have f: "fresh_object (length h) h1 a" and s1: "same_below (length h) h h1"
    by (auto simp: encR_def)
  show ?thesis
    using f s1
    by (simp add: getEncodingH_returned [OF assms(1)] encodeH_returned [OF assms(1)]
          autoEncodeH_returned [OF assms(1)] assms(3))
qed

theorem getEncoding_returns_fresh_copy_witness:
  "\<exists>a h1 d ca.
     getEncodingH 4 exampleObjects exampleAliases ''ibm437'' exampleStore = Some (Inr (a, h1)) \<and>
     objectAt h1 a = Some d \<and> h_codepoints d = Some ca \<and> 9 \<le> a \<and> 9 \<le> ca \<and>
     returned (\<lambda>(a', h'). absEncoding h' a')
       (getEncodingH 4 exampleObjects exampleAliases ''ibm437'' (h1[ca := Numbers [], a := Strings []])) =
       Some (Inr (withCodepoints exampleCp437 exampleCp437Table)) \<and>
     returned (\<lambda>(out, h'). Some out)
       (encodeH 4 exampleObjects exampleAliases [0x41, 0xC7] ''ibm437''
          (h1[ca := Numbers [], a := Strings []])) =
       Some (Inr [0x41, 0x80])"
proof -
  have len: "length exampleStore = 9" by (simp add: exampleStore_def)
  have reg: "registry_in (length exampleStore) exampleStore exampleObjects"
    using example_registry_in len by simp
  have refl: "same_below (length exampleStore) exampleStore exampleStore"
    by (simp add: same_below_refl)
  have pure: "getEncoding 4 (absRegistry exampleStore exampleObjects) exampleAliases ''ibm437'' =
      Some (Inr (withCodepoints exampleCp437 exampleCp437Table))"
    by (simp add: example_absRegistry example_eval)
  obtain a h1 where call: "getEncodingH 4 exampleObjects exampleAliases ''ibm437'' exampleStore =
      Some (Inr (a, h1))"
    using getEncodingH_returns [OF reg refl pure] by auto
  let ?h2 = "\<lambda>ca. h1[ca := Numbers [], a := Strings []]"
  have first: "fresh_object (length exampleStore) h1 a \<and>
               same_below (length exampleStore) exampleStore h1"
    using getEncoding_returns_fresh_copy [OF reg call refl] by simp
  then obtain d ca where o: "objectAt h1 a = Some d" and c: "h_codepoints d = Some ca"
    and a9: "9 \<le> a" and c9: "9 \<le> ca"
    by (auto simp: fresh_object_def len)
  have s2: "same_below (length exampleStore) exampleStore (?h2 ca)"
    using first a9 c9 by (auto simp: same_below_def len)
  have "returned (\<lambda>(a', h'). absEncoding h' a')
          (getEncodingH 4 exampleObjects exampleAliases ''ibm437'' (?h2 ca)) =
        getEncoding 4 (absRegistry exampleStore exampleObjects) exampleAliases ''ibm437''"
    and "returned (\<lambda>(out, h'). Some out)
          (encodeH 4 exampleObjects exampleAliases [0x41, 0xC7] ''ibm437'' (?h2 ca)) =
        encode 4 (absRegistry exampleStore exampleObjects) exampleAliases [0x41, 0xC7] ''ibm437''"
    using getEncoding_returns_fresh_copy [OF reg call s2, of 4 "''ibm437''" "[0x41, 0xC7]"]
    by simp_all
  moreover have "encode 4 exampleDefinitions exampleAliases [0x41, 0xC7] ''ibm437'' =
      Some (Inr [0x41, 0x80])"
    by (simp add: encode_def example_eval codePointAt_def upt_rec)
  ultimately show ?thesis
    using call o c a9 c9 pure by (auto simp: example_absRegistry)
qed

end
